theory Spec2Isabelle
  imports Main "HOL-Library.Finite_Map" "HOL-Library.Sublist" "HOL-Library.AList"
begin

chapter \<open>The model\<close>

section \<open>Python values\<close>

text \<open>
  The scraper in \<^verbatim>\<open>new/scraper.py\<close> handles records as Python dictionaries whose
  values are whatever the HTML extractor or \<^verbatim>\<open>json.load\<close> produced.  A value is
  modelled up to Python's \<^verbatim>\<open>==\<close>: \<^verbatim>\<open>None\<close>, an integer (\<^verbatim>\<open>True\<close> and \<^verbatim>\<open>False\<close>
  are the integers 1 and 0 they are equal to), a string, a list, or a dictionary with
  string keys (a finite map, so that two dictionaries are equal whatever their insertion
  order, as in Python).  Floating-point numbers are not modelled.
\<close>

datatype pyval =
    PNone
  | PInt int
  | PStr string
  | PList "pyval list"
  | PDict "(string, pyval) fmap"

type_synonym entry = "(string, pyval) fmap"

datatype pyerror = KeyError | TypeError | OSError | JSONDecodeError | OtherRequestsError

section \<open>Page walker\<close>

text \<open>
  \<^verbatim>\<open>str(page)\<close> for the page numbers of \<^verbatim>\<open>range(1, page_count + 1)\<close>: the decimal
  numeral of a natural number.
\<close>

definition digit_char :: "nat \<Rightarrow> char" where
  "digit_char d = ''0123456789'' ! d"

function str_nat :: "nat \<Rightarrow> string" where
  "str_nat n = (if n < 10 then [digit_char n] else str_nat (n div 10) @ [digit_char (n mod 10)])"
  by pat_completeness auto
termination
  by (relation "measure (\<lambda>n. n)") auto

declare str_nat.simps [simp del]

text \<open>
  \<^verbatim>\<open>
  def build_page_urls(base_url, page_count):
      if page_count == 1:
          return [base_url]
      return [f"{base_url}?p={page}" for page in range(1, page_count + 1)]
  \<close>
  \<^verbatim>\<open>page_count\<close> is a Python integer (it comes from \<^verbatim>\<open>int(pager['data-pagecount'])\<close>
  and may be zero or negative, where the range is empty).
\<close>

definition page_url :: "string \<Rightarrow> nat \<Rightarrow> string" where
  "page_url base_url page = base_url @ ''?p='' @ str_nat page"

definition build_page_urls :: "string \<Rightarrow> int \<Rightarrow> string list" where
  "build_page_urls base_url page_count =
     (if page_count = 1 then [base_url]
      else map (page_url base_url) [1 ..< nat (page_count + 1)])"

text \<open>
  The claim as the specification words it: page 1 is the bare base address, every later
  page carries the page parameter.
\<close>

definition spec_page_urls :: "string \<Rightarrow> int \<Rightarrow> string list" where
  "spec_page_urls base_url page_count =
     base_url # map (page_url base_url) [2 ..< nat (page_count + 1)]"

section \<open>Errors as values\<close>

definition bind_err :: "pyerror + 'a \<Rightarrow> ('a \<Rightarrow> pyerror + 'b) \<Rightarrow> pyerror + 'b" where
  "bind_err m f = (case m of Inl err \<Rightarrow> Inl err | Inr v \<Rightarrow> f v)"

text \<open>A comprehension whose element expression may raise: the first exception ends it.\<close>

primrec map_err :: "('a \<Rightarrow> pyerror + 'b) \<Rightarrow> 'a list \<Rightarrow> pyerror + 'b list" where
  "map_err f [] = Inr []"
| "map_err f (x # xs) =
     bind_err (f x) (\<lambda>y. bind_err (map_err f xs) (\<lambda>ys. Inr (y # ys)))"

text \<open>\<^verbatim>\<open>d[key]\<close> on a record: \<^verbatim>\<open>KeyError\<close> when the field is absent.\<close>

definition getitem :: "entry \<Rightarrow> string \<Rightarrow> pyerror + pyval" where
  "getitem d k = (case fmlookup d k of None \<Rightarrow> Inl KeyError | Some v \<Rightarrow> Inr v)"

section \<open>Transport fetcher\<close>

text \<open>
  One call of \<^verbatim>\<open>requests.get\<close> followed by \<^verbatim>\<open>raise_for_status\<close> either yields the
  response text, raises a \<^verbatim>\<open>RequestException\<close> (timeout, connection error, HTTP error
  status), or raises something else, which \<^verbatim>\<open>fetch_html_with_retry\<close> does not catch.
  The network is an oracle that answers the requests in the order they are sent; the
  world records how many requests were sent and the trace of requests and sleeps.
\<close>

datatype response = Ok_text string | Request_exception | Other_exception

datatype event = Requested string | Slept nat

record world =
  sent :: nat
  trace :: "event list"

definition MAX_RETRIES :: int where "MAX_RETRIES = 3"
definition RETRY_BACKOFF_BASE :: nat where "RETRY_BACKOFF_BASE = 2"
definition STATE_BACKUP_COUNT :: nat where "STATE_BACKUP_COUNT = 5"

text \<open>
  \<^verbatim>\<open>
  for attempt in range(max_retries):
      try:
          response = requests.get(url, headers=headers, timeout=REQUEST_TIMEOUT)
          response.raise_for_status()
          return response.text
      except requests.exceptions.RequestException as e:
          wait_time = RETRY_BACKOFF_BASE ** attempt
          if attempt < max_retries - 1:
              time.sleep(wait_time)
          else:
              return None
  return None
  \<close>
\<close>

fun fetch_loop ::
  "(nat \<Rightarrow> response) \<Rightarrow> string \<Rightarrow> int \<Rightarrow> nat list \<Rightarrow> world \<Rightarrow> (pyerror + string option) \<times> world"
where
  "fetch_loop net url max_retries [] w = (Inr None, w)"
| "fetch_loop net url max_retries (attempt # rest) w =
     (let w1 = w\<lparr>sent := sent w + 1, trace := trace w @ [Requested url]\<rparr> in
      case net (sent w) of
        Ok_text text \<Rightarrow> (Inr (Some text), w1)
      | Other_exception \<Rightarrow> (Inl OtherRequestsError, w1)
      | Request_exception \<Rightarrow>
          (let wait_time = RETRY_BACKOFF_BASE ^ attempt in
           if int attempt < max_retries - 1
           then fetch_loop net url max_retries rest (w1\<lparr>trace := trace w1 @ [Slept wait_time]\<rparr>)
           else (Inr None, w1)))"

definition fetch_html_with_retry ::
  "(nat \<Rightarrow> response) \<Rightarrow> string \<Rightarrow> int \<Rightarrow> world \<Rightarrow> (pyerror + string option) \<times> world"
where
  "fetch_html_with_retry net url max_retries w =
     fetch_loop net url max_retries [0 ..< nat max_retries] w"

text \<open>What the trace shows for attempt \<open>k\<close> of \<open>n\<close> when the attempt fails: the request,
  and the sleep unless it was the last attempt.\<close>

definition retry_trace :: "string \<Rightarrow> nat \<Rightarrow> nat \<Rightarrow> event list" where
  "retry_trace target n k = Requested target # (if Suc k < n then [Slept (2 ^ k)] else [])"

section \<open>Record validator\<close>

text \<open>
  \<^verbatim>\<open>
  def validate_entry(entry):
      required_fields = ['id', 'author', 'timestamp', 'content', 'scraped_at']
      if not all(field in entry for field in required_fields):
          return False
      if not isinstance(entry['id'], str) or not entry['id']:
          return False
      if not isinstance(entry['content'], str):
          return False
      return True
  \<close>
\<close>

definition required_fields :: "string list" where
  "required_fields = [''id'', ''author'', ''timestamp'', ''content'', ''scraped_at'']"

definition is_nonempty_str :: "pyval option \<Rightarrow> bool" where
  "is_nonempty_str v = (case v of Some (PStr s) \<Rightarrow> s \<noteq> [] | _ \<Rightarrow> False)"

definition is_str :: "pyval option \<Rightarrow> bool" where
  "is_str v = (case v of Some (PStr s) \<Rightarrow> True | _ \<Rightarrow> False)"

definition validate_entry :: "entry \<Rightarrow> bool" where
  "validate_entry entry =
     (if \<not> list_all (\<lambda>field. fmlookup entry field \<noteq> None) required_fields then False
      else if \<not> is_nonempty_str (fmlookup entry ''id'') then False
      else if \<not> is_str (fmlookup entry ''content'') then False
      else True)"

text \<open>
  The error strings of \<^verbatim>\<open>validate_entries\<close> are kept as structured values: the
  argument of \<open>Invalid_entry_structure\<close> is \<^verbatim>\<open>entry.get('id', 'unknown')\<close>.
\<close>

datatype verror = Invalid_entry_structure pyval | Duplicate_entry_ID pyval

definition get_or :: "entry \<Rightarrow> string \<Rightarrow> pyval \<Rightarrow> pyval" where
  "get_or d k dflt = (case fmlookup d k of None \<Rightarrow> dflt | Some v \<Rightarrow> v)"

text \<open>
  The loop of \<^verbatim>\<open>validate_entries\<close>, with its three accumulators.  \<^verbatim>\<open>entry['id']\<close> is
  read only after \<^verbatim>\<open>validate_entry\<close> has established that the field is there.
\<close>

fun validate_loop ::
  "entry list \<Rightarrow> entry list \<Rightarrow> verror list \<Rightarrow> pyval list \<Rightarrow> entry list \<times> verror list"
where
  "validate_loop [] valid_entries errors seen_ids = (valid_entries, errors)"
| "validate_loop (entry # rest) valid_entries errors seen_ids =
     (if \<not> validate_entry entry
      then validate_loop rest valid_entries
             (errors @ [Invalid_entry_structure (get_or entry ''id'' (PStr ''unknown''))]) seen_ids
      else if get_or entry ''id'' PNone \<in> set seen_ids
      then validate_loop rest valid_entries
             (errors @ [Duplicate_entry_ID (get_or entry ''id'' PNone)]) seen_ids
      else validate_loop rest (valid_entries @ [entry]) errors
             (get_or entry ''id'' PNone # seen_ids))"

definition validate_entries :: "entry list \<Rightarrow> entry list \<times> verror list" where
  "validate_entries entries = validate_loop entries [] [] []"

text \<open>The error \<^verbatim>\<open>validate_entries\<close> appends for a record it rejects.\<close>

definition invalid_entry_error :: "entry \<Rightarrow> verror" where
  "invalid_entry_error e =
     (if validate_entry e then Duplicate_entry_ID (get_or e ''id'' PNone)
      else Invalid_entry_structure (get_or e ''id'' (PStr ''unknown'')))"

section \<open>State store\<close>

text \<open>
  The file system maps a path to the file stored there.  A file is represented by what
  \<^verbatim>\<open>open\<close> followed by \<^verbatim>\<open>json.load\<close> makes of it: the JSON value it holds, text that
  is not JSON, or a file that exists but cannot be opened for reading.  \<^verbatim>\<open>json.dump\<close>
  of a value followed by \<^verbatim>\<open>json.load\<close> is taken to return the value.
\<close>

datatype stored = Json_file pyval | Garbage_file | Unreadable_file

type_synonym fs = "string \<Rightarrow> stored option"

text \<open>The state: a dictionary from record id to record, in insertion order.\<close>

type_synonym state = "(pyval \<times> entry) list"

definition json_load :: "fs \<Rightarrow> string \<Rightarrow> pyerror + pyval" where
  "json_load files path =
     (case files path of
        None \<Rightarrow> Inl OSError
      | Some Unreadable_file \<Rightarrow> Inl OSError
      | Some Garbage_file \<Rightarrow> Inl JSONDecodeError
      | Some (Json_file v) \<Rightarrow> Inr v)"

definition backup_file :: "string \<Rightarrow> nat \<Rightarrow> string" where
  "backup_file state_file i = state_file @ ''.backup.'' @ str_nat i"

definition temp_file :: "string \<Rightarrow> nat \<Rightarrow> string" where
  "temp_file state_file pid = state_file @ ''.tmp.'' @ str_nat pid"

text \<open>
  One element of the comprehension
  \<^verbatim>\<open>{entry['id']: entry for entry in entries if validate_entry(entry)}\<close> of the loaders,
  where \<^verbatim>\<open>entry\<close> is any JSON value.  On a dictionary it is \<open>validate_entry\<close>.  On a
  string \<^verbatim>\<open>field in entry\<close> is the substring test and on a list the membership test; when
  all five succeed, \<^verbatim>\<open>entry['id']\<close> raises \<^verbatim>\<open>TypeError\<close>.  On \<^verbatim>\<open>None\<close> and on a number
  \<^verbatim>\<open>field in entry\<close> raises \<^verbatim>\<open>TypeError\<close>.
\<close>

fun state_item :: "pyval \<Rightarrow> pyerror + (pyval \<times> entry) option" where
  "state_item (PDict entry) =
     (if validate_entry entry then Inr (Some (get_or entry ''id'' PNone, entry)) else Inr None)"
| "state_item (PStr s) =
     (if list_all (\<lambda>field. sublist field s) required_fields then Inl TypeError else Inr None)"
| "state_item (PList l) =
     (if list_all (\<lambda>field. PStr field \<in> set l) required_fields then Inl TypeError else Inr None)"
| "state_item PNone = Inl TypeError"
| "state_item (PInt n) = Inl TypeError"

fun state_of_entries :: "pyval list \<Rightarrow> state \<Rightarrow> pyerror + state" where
  "state_of_entries [] acc = Inr acc"
| "state_of_entries (v # vs) acc =
     bind_err (state_item v)
       (\<lambda>item. case item of
                 None \<Rightarrow> state_of_entries vs acc
               | Some (k, entry) \<Rightarrow> state_of_entries vs (AList.update k entry acc))"

text \<open>What the loaders print on \<^verbatim>\<open>stderr\<close>.\<close>

datatype load_msg =
    Invalid_format_ignoring
  | Error_loading_state_file
  | Attempting_backup nat
  | Loaded_from_backup nat
  | Backup_also_corrupted nat
  | All_backups_failed

text \<open>
  \<^verbatim>\<open>
  for i in range(1, STATE_BACKUP_COUNT + 1):
      backup_file = f"{state_file}.backup.{i}"
      if Path(backup_file).exists():
          try:
              print(f"Attempting to load from backup: {backup_file}")
              with open(backup_file, 'r', encoding='utf-8') as f:
                  entries = json.load(f)
                  if isinstance(entries, list):
                      print(f"Successfully loaded from backup {i}")
                      return {entry['id']: entry for entry in entries if validate_entry(entry)}
          except Exception as e:
              print(f"Backup {i} also corrupted: {e}")
              continue
  print("All backups failed, starting fresh")
  return {}
  \<close>
\<close>

fun backup_loop :: "string \<Rightarrow> fs \<Rightarrow> nat list \<Rightarrow> load_msg list \<times> state" where
  "backup_loop state_file files [] = ([All_backups_failed], [])"
| "backup_loop state_file files (i # rest) =
     (if files (backup_file state_file i) \<noteq> None then
        (case json_load files (backup_file state_file i) of
           Inl err \<Rightarrow>
             (let (msgs, st) = backup_loop state_file files rest
              in (Attempting_backup i # Backup_also_corrupted i # msgs, st))
         | Inr (PList entries) \<Rightarrow>
             (case state_of_entries entries [] of
                Inr st \<Rightarrow> ([Attempting_backup i, Loaded_from_backup i], st)
              | Inl err \<Rightarrow>
                  (let (msgs, st) = backup_loop state_file files rest
                   in (Attempting_backup i # Loaded_from_backup i # Backup_also_corrupted i # msgs,
                       st)))
         | Inr other \<Rightarrow>
             (let (msgs, st) = backup_loop state_file files rest
              in (Attempting_backup i # msgs, st)))
      else backup_loop state_file files rest)"

definition load_state_from_backup :: "string \<Rightarrow> fs \<Rightarrow> load_msg list \<times> state" where
  "load_state_from_backup state_file files =
     backup_loop state_file files [1 ..< STATE_BACKUP_COUNT + 1]"

text \<open>
  \<^verbatim>\<open>
  if not Path(state_file).exists():
      return {}
  try:
      with open(state_file, 'r', encoding='utf-8') as f:
          entries = json.load(f)
          if not isinstance(entries, list):
              print(f"Warning: State file has invalid format, ignoring")
              return {}
          return {entry['id']: entry for entry in entries if validate_entry(entry)}
  except Exception as e:
      print(f"Error loading state file: {e}")
      return load_state_from_backup(state_file)
  \<close>
\<close>

definition load_state :: "string \<Rightarrow> fs \<Rightarrow> load_msg list \<times> state" where
  "load_state state_file files =
     (if files state_file = None then ([], [])
      else
        (case json_load files state_file of
           Inl err \<Rightarrow>
             (let (msgs, st) = load_state_from_backup state_file files
              in (Error_loading_state_file # msgs, st))
         | Inr (PList entries) \<Rightarrow>
             (case state_of_entries entries [] of
                Inr st \<Rightarrow> ([], st)
              | Inl err \<Rightarrow>
                  (let (msgs, st) = load_state_from_backup state_file files
                   in (Error_loading_state_file # msgs, st)))
         | Inr other \<Rightarrow> ([Invalid_format_ignoring], [])))"

text \<open>
  Writing can fail for reasons the file system above does not show (a full disk, a
  directory in the way, permissions).  Which system calls raise is an input of the model.
\<close>

record faults =
  rename_raises :: "nat \<Rightarrow> bool"
  copy_raises :: bool
  write_raises :: bool
  replace_raises :: bool
  unlink_raises :: bool

definition no_faults :: faults where
  "no_faults = \<lparr>rename_raises = (\<lambda>i. False), copy_raises = False, write_raises = False,
                 replace_raises = False, unlink_raises = False\<rparr>"

definition rename_file :: "fs \<Rightarrow> string \<Rightarrow> string \<Rightarrow> fs" where
  "rename_file files src dst = (if src = dst then files else (files(dst := files src))(src := None))"

text \<open>
  \<^verbatim>\<open>
  for i in range(STATE_BACKUP_COUNT - 1, 0, -1):
      old_backup = Path(f"{state_file}.backup.{i}")
      new_backup = Path(f"{state_file}.backup.{i + 1}")
      if old_backup.exists():
          old_backup.rename(new_backup)
  \<close>
  An exception of \<^verbatim>\<open>rename\<close> leaves \<^verbatim>\<open>rotate_backups\<close>; the files renamed so far stay
  renamed.
\<close>

fun rotate_loop :: "faults \<Rightarrow> string \<Rightarrow> nat list \<Rightarrow> fs \<Rightarrow> pyerror option \<times> fs" where
  "rotate_loop flt state_file [] files = (None, files)"
| "rotate_loop flt state_file (i # rest) files =
     (if files (backup_file state_file i) \<noteq> None then
        (if rename_raises flt i then (Some OSError, files)
         else rotate_loop flt state_file rest
                (rename_file files (backup_file state_file i) (backup_file state_file (i + 1))))
      else rotate_loop flt state_file rest files)"

text \<open>
  \<^verbatim>\<open>shutil.copy2\<close> inside \<^verbatim>\<open>try\<close>: a failure (the source cannot be read, or the copy
  raises) is reported and otherwise ignored.
\<close>

definition copy2 :: "faults \<Rightarrow> fs \<Rightarrow> string \<Rightarrow> string \<Rightarrow> fs" where
  "copy2 flt files src dst =
     (if copy_raises flt \<or> files src = Some Unreadable_file \<or> files src = None then files
      else files(dst := files src))"

definition rotate_backups :: "faults \<Rightarrow> string \<Rightarrow> fs \<Rightarrow> pyerror option \<times> fs" where
  "rotate_backups flt state_file files =
     (if files state_file = None then (None, files)
      else
        (case rotate_loop flt state_file (rev [1 ..< STATE_BACKUP_COUNT]) files of
           (Some err, files1) \<Rightarrow> (Some err, files1)
         | (None, files1) \<Rightarrow> (None, copy2 flt files1 state_file (backup_file state_file 1))))"

text \<open>The \<^verbatim>\<open>except\<close> branch of \<^verbatim>\<open>save_state_atomic\<close>: remove the temporary file, return False.\<close>

definition save_failed :: "faults \<Rightarrow> string \<Rightarrow> nat \<Rightarrow> fs \<Rightarrow> bool \<times> fs" where
  "save_failed flt state_file pid files =
     (False, if unlink_raises flt then files else files(temp_file state_file pid := None))"

text \<open>
  \<^verbatim>\<open>
  try:
      valid_entries, errors = validate_entries(entries)
      if not valid_entries:
          return False
      rotate_backups(state_file)
      temp_file = f"{state_file}.tmp.{os.getpid()}"
      with open(temp_file, 'w', encoding='utf-8') as f:
          json.dump(valid_entries, f, ensure_ascii=False, indent=2)
          f.flush()
          os.fsync(f.fileno())
      os.rename(temp_file, state_file)
      return True
  except Exception as e:
      try:
          Path(f"{state_file}.tmp.{os.getpid()}").unlink(missing_ok=True)
      except:
          pass
      return False
  \<close>
\<close>

definition save_state_atomic :: "faults \<Rightarrow> nat \<Rightarrow> entry list \<Rightarrow> string \<Rightarrow> fs \<Rightarrow> bool \<times> fs" where
  "save_state_atomic flt pid entries state_file files =
     (let (valid_entries, errors) = validate_entries entries in
      if valid_entries = [] then (False, files)
      else
        (case rotate_backups flt state_file files of
           (Some err, files1) \<Rightarrow> save_failed flt state_file pid files1
         | (None, files1) \<Rightarrow>
             (if write_raises flt
              then save_failed flt state_file pid
                     (files1(temp_file state_file pid \<mapsto> Garbage_file))
              else
                (let files2 = files1(temp_file state_file pid \<mapsto>
                                       Json_file (PList (map PDict valid_entries)))
                 in if replace_raises flt then save_failed flt state_file pid files2
                    else (True, rename_file files2 (temp_file state_file pid) state_file)))))"

section \<open>Diff engine\<close>

record versions =
  v_content :: pyval
  v_timestamp :: pyval

record edited_entry =
  ed_id :: pyval
  ed_author :: pyval
  ed_previous :: versions
  ed_current :: versions
  ed_scraped_at :: pyval

record summary =
  new_count :: nat
  edited_count :: nat
  deleted_count :: nat
  total_current :: nat
  total_previous :: nat

record diff_result =
  new_entries :: "entry list"
  edited_entries :: "edited_entry list"
  deleted_entries :: "entry list"
  diff_summary :: summary

text \<open>Lists and dictionaries cannot be dictionary keys.\<close>

fun hashable :: "pyval \<Rightarrow> bool" where
  "hashable (PList l) = False"
| "hashable (PDict d) = False"
| "hashable v = True"

text \<open>\<^verbatim>\<open>{entry['id']: entry for entry in current_entries}\<close>: a later record replaces an
  earlier one with the same id.\<close>

fun dict_by_id :: "entry list \<Rightarrow> state \<Rightarrow> pyerror + state" where
  "dict_by_id [] acc = Inr acc"
| "dict_by_id (entry # rest) acc =
     bind_err (getitem entry ''id'')
       (\<lambda>k. if hashable k then dict_by_id rest (AList.update k entry acc) else Inl TypeError)"

text \<open>\<^verbatim>\<open>d[eid]\<close> on a dictionary of records.\<close>

definition lookup :: "state \<Rightarrow> pyval \<Rightarrow> pyerror + entry" where
  "lookup d eid = (case map_of d eid of None \<Rightarrow> Inl KeyError | Some entry \<Rightarrow> Inr entry)"

text \<open>
  The body of the loop over \<^verbatim>\<open>common_ids\<close>; the result has the appended record, if any.
  \<^verbatim>\<open>
  curr = current_by_id[eid]
  prev = previous_state[eid]
  if curr['content'] != prev['content'] or curr['timestamp'] != prev['timestamp']:
      edited_entries.append({
          'id': eid, 'author': curr['author'],
          'previous': {'content': prev['content'], 'timestamp': prev['timestamp']},
          'current': {'content': curr['content'], 'timestamp': curr['timestamp']},
          'scraped_at': curr['scraped_at']})
  \<close>
\<close>

definition changed :: "entry \<Rightarrow> entry \<Rightarrow> pyerror + bool" where
  "changed cur prev =
     bind_err (getitem cur ''content'') (\<lambda>cc.
     bind_err (getitem prev ''content'') (\<lambda>pc.
       if cc \<noteq> pc then Inr True
       else
         bind_err (getitem cur ''timestamp'') (\<lambda>ct.
         bind_err (getitem prev ''timestamp'') (\<lambda>pt. Inr (ct \<noteq> pt)))))"

definition edited_record :: "pyval \<Rightarrow> entry \<Rightarrow> entry \<Rightarrow> pyerror + edited_entry" where
  "edited_record eid cur prev =
     bind_err (getitem cur ''author'') (\<lambda>a.
     bind_err (getitem prev ''content'') (\<lambda>pc.
     bind_err (getitem prev ''timestamp'') (\<lambda>pt.
     bind_err (getitem cur ''content'') (\<lambda>cc.
     bind_err (getitem cur ''timestamp'') (\<lambda>ct.
     bind_err (getitem cur ''scraped_at'') (\<lambda>sa.
       Inr \<lparr>ed_id = eid, ed_author = a,
            ed_previous = \<lparr>v_content = pc, v_timestamp = pt\<rparr>,
            ed_current = \<lparr>v_content = cc, v_timestamp = ct\<rparr>,
            ed_scraped_at = sa\<rparr>))))))"

definition edited_step :: "state \<Rightarrow> state \<Rightarrow> pyval \<Rightarrow> pyerror + edited_entry list" where
  "edited_step current_by_id previous_state eid =
     bind_err (lookup current_by_id eid) (\<lambda>cur.
     bind_err (lookup previous_state eid) (\<lambda>prev.
     bind_err (changed cur prev) (\<lambda>c.
       if c then bind_err (edited_record eid cur prev) (\<lambda>r. Inr [r]) else Inr [])))"

text \<open>
  Python iterates over the three id sets in an order it does not specify.  The model
  takes the order of the dictionaries; the properties below are stated for the sets and
  the counts, which do not depend on it.  \<open>remdups\<close> is \<^verbatim>\<open>set(...)\<close>.
\<close>

definition compute_diff :: "entry list \<Rightarrow> state \<Rightarrow> pyerror + diff_result" where
  "compute_diff current_entries previous_state =
     bind_err (dict_by_id current_entries []) (\<lambda>current_by_id.
       let current_ids = remdups (map fst current_by_id);
           previous_ids = remdups (map fst previous_state);
           new_ids = filter (\<lambda>eid. eid \<notin> set previous_ids) current_ids;
           deleted_ids = filter (\<lambda>eid. eid \<notin> set current_ids) previous_ids;
           common_ids = filter (\<lambda>eid. eid \<in> set previous_ids) current_ids
       in
         bind_err (map_err (lookup current_by_id) new_ids) (\<lambda>new.
         bind_err (map_err (lookup previous_state) deleted_ids) (\<lambda>deleted.
         bind_err (map_err (edited_step current_by_id previous_state) common_ids) (\<lambda>steps.
           let edited = concat steps in
           Inr \<lparr>new_entries = new, edited_entries = edited, deleted_entries = deleted,
                diff_summary = \<lparr>new_count = length new, edited_count = length edited,
                                 deleted_count = length deleted,
                                 total_current = length current_entries,
                                 total_previous = length previous_state\<rparr>\<rparr>))))"

section \<open>Reconciliation run\<close>

text \<open>The run metadata, without its two wall-clock fields \<^verbatim>\<open>start_time\<close> and
  \<^verbatim>\<open>end_time\<close>.\<close>

record metadata =
  total_pages :: int
  successful_pages :: nat
  failed_pages :: nat
  partial_scrape :: bool

text \<open>
  The HTML parser is a collaborator: \<open>page_count_of\<close> stands for
  \<^verbatim>\<open>get_page_count(parse_html(html))\<close> and \<open>entries_of\<close> for
  \<^verbatim>\<open>extract_entries_from_page(parse_html(html))\<close>.  The environment of a run further
  says whether another process holds the lock, which pid the process has, which writes
  fail, and whether writing the output fails.
\<close>

datatype lock_status = Lock_free | Lock_held | Lock_file_error

record env =
  lock :: lock_status
  net :: "nat \<Rightarrow> response"
  page_count_of :: "string \<Rightarrow> int"
  entries_of :: "string \<Rightarrow> entry list"
  pid :: nat
  io_faults :: faults
  output_fails :: bool

text \<open>\<^verbatim>\<open>if not html\<close> holds when the fetch returned \<^verbatim>\<open>None\<close> or an empty text.\<close>

definition scrape_page ::
  "env \<Rightarrow> string \<Rightarrow> world \<Rightarrow> (pyerror + entry list \<times> bool) \<times> world"
where
  "scrape_page e url w =
     (case fetch_html_with_retry (net e) url MAX_RETRIES w of
        (Inl err, w1) \<Rightarrow> (Inl err, w1)
      | (Inr None, w1) \<Rightarrow> (Inr ([], False), w1)
      | (Inr (Some html), w1) \<Rightarrow>
          (if html = [] then (Inr ([], False), w1)
           else (Inr (entries_of e html, True), w1)))"

fun scrape_pages ::
  "env \<Rightarrow> string list \<Rightarrow> entry list \<Rightarrow> metadata \<Rightarrow> world
     \<Rightarrow> (pyerror + entry list \<times> metadata) \<times> world"
where
  "scrape_pages e [] all_entries md w = (Inr (all_entries, md), w)"
| "scrape_pages e (url # urls) all_entries md w =
     (case scrape_page e url w of
        (Inl err, w1) \<Rightarrow> (Inl err, w1)
      | (Inr (entries, success), w1) \<Rightarrow>
          (if success
           then scrape_pages e urls (all_entries @ entries)
                  (md\<lparr>successful_pages := successful_pages md + 1\<rparr>) w1
           else scrape_pages e urls all_entries
                  (md\<lparr>failed_pages := failed_pages md + 1\<rparr>) w1))"

definition scrape_all_pages ::
  "env \<Rightarrow> string \<Rightarrow> world \<Rightarrow> (pyerror + entry list \<times> metadata) \<times> world"
where
  "scrape_all_pages e base_url w =
     (let md = \<lparr>total_pages = 0, successful_pages = 0, failed_pages = 0,
                partial_scrape = False\<rparr> in
      case fetch_html_with_retry (net e) base_url MAX_RETRIES w of
        (Inl err, w1) \<Rightarrow> (Inl err, w1)
      | (Inr None, w1) \<Rightarrow> (Inr ([], md), w1)
      | (Inr (Some html), w1) \<Rightarrow>
          (if html = [] then (Inr ([], md), w1)
           else
             (let page_count = page_count_of e html;
                  md1 = md\<lparr>total_pages := page_count\<rparr>;
                  urls = build_page_urls base_url page_count
              in case scrape_pages e urls [] md1 w1 of
                   (Inl err, w2) \<Rightarrow> (Inl err, w2)
                 | (Inr (all_entries, md2), w2) \<Rightarrow>
                     (Inr (all_entries,
                           if failed_pages md2 > 0 then md2\<lparr>partial_scrape := True\<rparr> else md2),
                      w2))))"

record config =
  url :: string
  output_file :: "string option"
  state_file :: "string option"
  diff_only :: bool
  lock_file :: "string option"

text \<open>The \<^verbatim>\<open>while\<close> loop of \<^verbatim>\<open>parse_args\<close> over \<^verbatim>\<open>args[2:]\<close>.\<close>

fun parse_options :: "string list \<Rightarrow> config \<Rightarrow> config" where
  "parse_options [] c = c"
| "parse_options [a] c = (if a = ''--diff-only'' then c\<lparr>diff_only := True\<rparr> else c)"
| "parse_options (a # b # rest) c =
     (if a = ''--output'' then parse_options rest (c\<lparr>output_file := Some b\<rparr>)
      else if a = ''--state''
      then parse_options rest (c\<lparr>state_file := Some b, lock_file := Some (b @ ''.lock'')\<rparr>)
      else if a = ''--diff-only'' then parse_options (b # rest) (c\<lparr>diff_only := True\<rparr>)
      else parse_options (b # rest) c)"

fun parse_args :: "string list \<Rightarrow> config option" where
  "parse_args (prog # u # rest) =
     Some (parse_options rest
       \<lparr>url = u, output_file = None, state_file = None, diff_only = False, lock_file = None\<rparr>)"
| "parse_args args = None"

text \<open>Truth value of an optional string: neither \<^verbatim>\<open>None\<close> nor empty.\<close>

definition truthy :: "string option \<Rightarrow> bool" where
  "truthy s = (case s of None \<Rightarrow> False | Some text \<Rightarrow> text \<noteq> [])"

text \<open>
  \<^verbatim>\<open>write_output\<close>: printing to \<^verbatim>\<open>stdout\<close> succeeds; writing the output file succeeds
  unless the environment makes it fail.  The output text itself is not modelled.
\<close>

definition write_output :: "env \<Rightarrow> string option \<Rightarrow> bool" where
  "write_output e out = (if truthy out then \<not> output_fails e else True)"

text \<open>
  The part of \<^verbatim>\<open>main\<close> inside \<^verbatim>\<open>with lock_context:\<close>.  The result is the exit status of
  the process and the files it leaves: the argument of the \<^verbatim>\<open>sys.exit\<close> reached, and 1
  where an exception is caught by nobody.  \<^verbatim>\<open>if state_file:\<close> holds for a state file
  name that is not empty.
\<close>

definition run_locked :: "env \<Rightarrow> config \<Rightarrow> fs \<Rightarrow> int \<times> fs" where
  "run_locked e c files =
     (case fst (scrape_all_pages e (url c) \<lparr>sent = 0, trace = []\<rparr>) of
        Inl err \<Rightarrow> (1, files)
      | Inr (current_entries, md) \<Rightarrow>
          if current_entries = [] then (1, files)
          else
            (let (valid_entries, validation_errors) = validate_entries current_entries in
             if valid_entries = [] then (1, files)
             else
               (let (saved, files1) =
                      (case state_file c of
                         None \<Rightarrow> (True, files)
                       | Some sf \<Rightarrow>
                           if sf = [] then (True, files)
                           else
                             (let previous_state = snd (load_state sf files)
                              in if previous_state \<noteq> [] then
                                   (case compute_diff valid_entries previous_state of
                                      Inl err \<Rightarrow> (False, files)
                                    | Inr diff \<Rightarrow>
                                        save_state_atomic (io_faults e) (pid e) valid_entries sf
                                          files)
                                 else save_state_atomic (io_faults e) (pid e) valid_entries sf
                                        files))
                in if \<not> saved then (1, files1)
                   else if \<not> write_output e (output_file c) then (1, files1)
                   else if partial_scrape md then (2, files1)
                   else (0, files1))))"

text \<open>
  \<^verbatim>\<open>main\<close>: usage error, then the lock (taken only when a state file was given), then the
  run.  \<^verbatim>\<open>acquire_lock\<close> leaves with \<^verbatim>\<open>sys.exit(2)\<close> when \<^verbatim>\<open>flock\<close> fails, and with an
  exception nobody catches when the lock file cannot be created or written.  The lock
  file itself is not among the files of the model.
\<close>

definition main :: "env \<Rightarrow> string list \<Rightarrow> fs \<Rightarrow> int \<times> fs" where
  "main e argv files =
     (case parse_args argv of
        None \<Rightarrow> (1, files)
      | Some c \<Rightarrow>
          if truthy (lock_file c) then
            (case lock e of
               Lock_file_error \<Rightarrow> (1, files)
             | Lock_held \<Rightarrow> (2, files)
             | Lock_free \<Rightarrow> run_locked e c files)
          else run_locked e c files)"

section \<open>Content-aware diff of the scheduled scraper\<close>

text \<open>
  \<^verbatim>\<open>python-scraper/entry.py\<close> declares the record as a data class of five strings.
  A character stands for one code point below 256.
\<close>

record Entry =
  id' :: string
  author :: string
  timestamp :: string
  content :: string
  scraped_at :: string

text \<open>The dictionaries that \<^verbatim>\<open>DataManager.diff\<close> appends.\<close>

record diff_item =
  d_id :: string
  d_type :: string
  d_content :: string
  d_timestamp :: string

text \<open>The characters \<^verbatim>\<open>str.strip()\<close> removes: those for which \<^verbatim>\<open>str.isspace\<close> holds.\<close>

definition isspace :: "char \<Rightarrow> bool" where
  "isspace c = (of_char c \<in> {9, 10, 11, 12, 13, 28, 29, 30, 31, 32, 133, 160 :: nat})"

definition strip :: "string \<Rightarrow> string" where
  "strip s = rev (dropWhile isspace (rev (dropWhile isspace s)))"

text \<open>\<^verbatim>\<open>{entry.id: entry for entry in old_data}\<close>\<close>

definition old_map_of :: "Entry list \<Rightarrow> string \<Rightarrow> Entry option" where
  "old_map_of old_data = foldl (\<lambda>m entry. m(id' entry \<mapsto> entry)) Map.empty old_data"

text \<open>
  \<^verbatim>\<open>
  old_entry = old_map.get(entry.id)
  if not old_entry:
      diffs.append({'id': entry.id, 'type': 'new', 'content': entry.content, 'timestamp': entry.timestamp})
  elif entry.content != old_entry.content:
      if entry.content.startswith(old_entry.content):
          appended = entry.content[len(old_entry.content):]
          if appended.strip():
              diffs.append({'id': entry.id, 'type': 'appended', 'content': appended, 'timestamp': entry.timestamp})
      else:
          diffs.append({'id': entry.id, 'type': 'edited', 'content': entry.content, 'timestamp': entry.timestamp})
  \<close>
  An \<^verbatim>\<open>Entry\<close> object is always true, so \<^verbatim>\<open>not old_entry\<close> means the id is not in the map.
\<close>

definition diff_step :: "(string \<Rightarrow> Entry option) \<Rightarrow> Entry \<Rightarrow> diff_item list" where
  "diff_step old_map entry =
     (case old_map (id' entry) of
        None \<Rightarrow>
          [\<lparr>d_id = id' entry, d_type = ''new'', d_content = content entry,
            d_timestamp = timestamp entry\<rparr>]
      | Some old_entry \<Rightarrow>
          if content entry \<noteq> content old_entry then
            (if prefix (content old_entry) (content entry) then
               (let appended = drop (length (content old_entry)) (content entry) in
                if strip appended \<noteq> [] then
                  [\<lparr>d_id = id' entry, d_type = ''appended'', d_content = appended,
                    d_timestamp = timestamp entry\<rparr>]
                else [])
             else
               [\<lparr>d_id = id' entry, d_type = ''edited'', d_content = content entry,
                 d_timestamp = timestamp entry\<rparr>])
          else [])"

primrec diff_loop :: "(string \<Rightarrow> Entry option) \<Rightarrow> Entry list \<Rightarrow> diff_item list" where
  "diff_loop old_map [] = []"
| "diff_loop old_map (entry # rest) = diff_step old_map entry @ diff_loop old_map rest"

definition diff :: "Entry list \<Rightarrow> Entry list \<Rightarrow> diff_item list" where
  "diff old_data new_data = diff_loop (old_map_of old_data) new_data"

section \<open>Notions used in the statements\<close>

text \<open>The key under which the loaders and the validator file a validated record:
  \<^verbatim>\<open>entry['id']\<close>.\<close>

definition entry_key :: "entry \<Rightarrow> pyval" where
  "entry_key e = get_or e ''id'' PNone"

text \<open>
  What backup \<open>i\<close> yields when the loop of \<^verbatim>\<open>load_state_from_backup\<close> reaches it: its
  records, if the file exists, parses to a list and the comprehension over the list does
  not raise; nothing otherwise.  \<open>primary_raises\<close> says that reading the primary state
  file ends in the \<^verbatim>\<open>except\<close> branch of \<^verbatim>\<open>load_state\<close>.
\<close>

definition backup_state :: "string \<Rightarrow> fs \<Rightarrow> nat \<Rightarrow> state option" where
  "backup_state sf files i =
     (if files (backup_file sf i) = None then None
      else
        (case json_load files (backup_file sf i) of
           Inr (PList entries) \<Rightarrow>
             (case state_of_entries entries [] of Inr st \<Rightarrow> Some st | Inl err \<Rightarrow> None)
         | Inr other \<Rightarrow> None
         | Inl err \<Rightarrow> None))"

definition primary_raises :: "string \<Rightarrow> fs \<Rightarrow> bool" where
  "primary_raises sf files =
     (case json_load files sf of
        Inl err \<Rightarrow> True
      | Inr (PList entries) \<Rightarrow>
          (case state_of_entries entries [] of Inl err \<Rightarrow> True | Inr st \<Rightarrow> False)
      | Inr other \<Rightarrow> False)"

text \<open>
  For the diff engine: the ids of the current batch and of the previous state, the record
  \<^verbatim>\<open>current_by_id[k]\<close> (the last record of the batch with id \<open>k\<close>), a field of a record
  that may be missing, and whether content or timestamp of id \<open>k\<close> differ between the
  current batch and the previous state.
\<close>

definition current_ids :: "entry list \<Rightarrow> pyval set" where
  "current_ids current_entries = Option.these (set (map (\<lambda>e. fmlookup e ''id'') current_entries))"

definition previous_ids :: "state \<Rightarrow> pyval set" where
  "previous_ids previous_state = set (map fst previous_state)"

definition current_record :: "entry list \<Rightarrow> pyval \<Rightarrow> entry option" where
  "current_record current_entries k =
     find (\<lambda>e. fmlookup e ''id'' = Some k) (rev current_entries)"

definition field_of :: "entry option \<Rightarrow> string \<Rightarrow> pyval option" where
  "field_of e f = Option.bind e (\<lambda>x. fmlookup x f)"

definition record_changed :: "entry list \<Rightarrow> state \<Rightarrow> pyval \<Rightarrow> bool" where
  "record_changed current_entries previous_state k =
     (field_of (current_record current_entries k) ''content''
        \<noteq> field_of (map_of previous_state k) ''content''
      \<or> field_of (current_record current_entries k) ''timestamp''
        \<noteq> field_of (map_of previous_state k) ''timestamp'')"

section \<open>Example records\<close>

text \<open>Records of the scheduled scraper for the append classification, with the contents of
  the specification's example.\<close>

definition storm_old :: Entry where
  "storm_old = \<lparr>id' = ''1'', author = ''a'', timestamp = ''01.01.2024 10:00'',
                content = ''a storm hit'', scraped_at = ''t0''\<rparr>"
definition storm_new :: Entry where
  "storm_new = \<lparr>id' = ''1'', author = ''a'', timestamp = ''01.01.2024 10:00 ~ 10:05'',
                content = ''a storm hit. update: 5.8 magnitude'', scraped_at = ''t1''\<rparr>"

definition storm_rewritten :: Entry where
  "storm_rewritten = \<lparr>id' = ''1'', author = ''a'', timestamp = ''01.01.2024 10:00 ~ 10:07'',
                content = ''totally different text'', scraped_at = ''t1''\<rparr>"
definition storm_padded :: Entry where
  "storm_padded = \<lparr>id' = ''1'', author = ''a'', timestamp = ''01.01.2024 10:00 ~ 10:09'',
                content = ''a storm hit  '', scraped_at = ''t1''\<rparr>"
definition other_old :: Entry where
  "other_old = \<lparr>id' = ''2'', author = ''b'', timestamp = ''02.01.2024 08:00'',
                content = ''gone'', scraped_at = ''t0''\<rparr>"
definition storm_restamped :: Entry where
  "storm_restamped = \<lparr>id' = ''1'', author = ''a'', timestamp = ''01.01.2024 10:00 ~ 11:00'',
                content = ''a storm hit'', scraped_at = ''t1''\<rparr>"
definition fresh_new :: Entry where
  "fresh_new = \<lparr>id' = ''3'', author = ''c'', timestamp = ''03.01.2024 08:00'',
                content = ''hello'', scraped_at = ''t1''\<rparr>"

text \<open>Records of the hardened scraper: one with all five fields, one without content.\<close>

definition mk_entry :: "string \<Rightarrow> string \<Rightarrow> string \<Rightarrow> string \<Rightarrow> string \<Rightarrow> entry" where
  "mk_entry i a t c s =
     fmap_of_list [(''id'', PStr i), (''author'', PStr a), (''timestamp'', PStr t),
                   (''content'', PStr c), (''scraped_at'', PStr s)]"

definition no_content :: entry where
  "no_content = fmap_of_list [(''id'', PStr ''1''), (''author'', PStr ''ali''),
                   (''timestamp'', PStr ''01.01.2024 10:00''), (''scraped_at'', PStr ''t1'')]"

definition rec1 :: entry where
  "rec1 = mk_entry ''1'' ''ali'' ''01.01.2024 10:00'' ''first'' ''t1''"
definition rec1_again :: entry where
  "rec1_again = mk_entry ''1'' ''ali'' ''01.01.2024 10:00 ~ 10:30'' ''first, edited'' ''t1''"

text \<open>Example file systems for the state file \<^verbatim>\<open>state.json\<close>.\<close>

definition corrupt_fs :: fs where
  "corrupt_fs = map_of
     [(''state.json'', Garbage_file),
      (''state.json.backup.1'', Garbage_file),
      (''state.json.backup.2'', Json_file (PList [PDict rec1]))]"

definition wrong_shape_fs :: fs where
  "wrong_shape_fs = map_of
     [(''state.json'', Json_file (PDict fmempty)),
      (''state.json.backup.1'', Json_file (PList [PDict rec1]))]"

definition invalid_record_fs :: fs where
  "invalid_record_fs = map_of
     [(''state.json'', Json_file (PList [PDict no_content])),
      (''state.json.backup.1'', Json_file (PList [PDict rec1]))]"

text \<open>The scenario of the specification: previous ids 1, 2, 3; current ids 1, 2, 4, 5, where
  record 2 was edited.\<close>

definition scen_cur :: "entry list" where
  "scen_cur =
     [mk_entry ''1'' ''ali'' ''01.01.2024 10:00'' ''first'' ''t1'',
      mk_entry ''2'' ''veli'' ''01.01.2024 11:00 ~ 12:00'' ''second, edited'' ''t1'',
      mk_entry ''4'' ''can'' ''02.01.2024 09:00'' ''fourth'' ''t1'',
      mk_entry ''5'' ''cem'' ''02.01.2024 09:30'' ''fifth'' ''t1'']"

definition scen_prev :: state where
  "scen_prev =
     [(PStr ''1'', mk_entry ''1'' ''ali'' ''01.01.2024 10:00'' ''first'' ''t0''),
      (PStr ''2'', mk_entry ''2'' ''veli'' ''01.01.2024 11:00'' ''second'' ''t0''),
      (PStr ''3'', mk_entry ''3'' ''ece'' ''01.01.2024 12:00'' ''third'' ''t0'')]"

definition scen_diff :: diff_result where
  "scen_diff =
     \<lparr>new_entries = [mk_entry ''4'' ''can'' ''02.01.2024 09:00'' ''fourth'' ''t1'',
                     mk_entry ''5'' ''cem'' ''02.01.2024 09:30'' ''fifth'' ''t1''],
      edited_entries =
        [\<lparr>ed_id = PStr ''2'', ed_author = PStr ''veli'',
          ed_previous = \<lparr>v_content = PStr ''second'', v_timestamp = PStr ''01.01.2024 11:00''\<rparr>,
          ed_current = \<lparr>v_content = PStr ''second, edited'',
                        v_timestamp = PStr ''01.01.2024 11:00 ~ 12:00''\<rparr>,
          ed_scraped_at = PStr ''t1''\<rparr>],
      deleted_entries = [mk_entry ''3'' ''ece'' ''01.01.2024 12:00'' ''third'' ''t0''],
      diff_summary = \<lparr>new_count = 2, edited_count = 1, deleted_count = 1,
                       total_current = 4, total_previous = 3\<rparr>\<rparr>"

text \<open>Runs of \<^verbatim>\<open>main\<close> with a state file: two pages that both arrive, a second page that
  fails on every attempt, a lock held by another process, and no page at all.\<close>

definition run_argv :: "string list" where
  "run_argv = [''scraper.py'', ''https://eksisozluk.com/t--1'', ''--state'', ''state.json'']"

definition env_ok :: env where
  "env_ok = \<lparr>lock = Lock_free, net = (\<lambda>k. Ok_text ''<html>''), page_count_of = (\<lambda>html. 2),
             entries_of = (\<lambda>html. [rec1]), pid = 4242, io_faults = no_faults,
             output_fails = False\<rparr>"

definition env_already_running :: env where
  "env_already_running = env_ok\<lparr>lock := Lock_held\<rparr>"

definition env_partial :: env where
  "env_partial = env_ok\<lparr>net := (\<lambda>k. if k < 2 then Ok_text ''<html>'' else Request_exception)\<rparr>"

definition env_no_data :: env where
  "env_no_data = env_ok\<lparr>net := (\<lambda>k. Request_exception)\<rparr>"

definition no_files :: fs where
  "no_files = (\<lambda>path. None)"

chapter \<open>Properties\<close>

section \<open>The page walker\<close>

lemma length_build_page_urls:
  "1 \<le> n \<Longrightarrow> length (build_page_urls b n) = nat n"
  by (auto simp: build_page_urls_def)

lemma nth_build_page_urls:
  assumes "2 \<le> n" "k < nat n"
  shows "build_page_urls b n ! k = page_url b (Suc k)"
proof -
  have lt: "1 + k < nat (n + 1)"
    using assms by linarith
  then have "[1 ..< nat (n + 1)] ! k = 1 + k"
    by (rule nth_upt)
  moreover have "k < length [1 ..< nat (n + 1)]"
    using lt by simp
  ultimately have "map (page_url b) [1 ..< nat (n + 1)] ! k = page_url b (Suc k)"
    by (simp only: nth_map plus_1_eq_Suc)
  then show ?thesis
    using assms by (simp add: build_page_urls_def)
qed

lemma page_url_not_base: "page_url b k \<noteq> b" "b \<noteq> page_url b k"
  by (simp_all add: page_url_def)

text \<open>
  C8 (as amended).  For every base address and every page count \<open>N \<ge> 1\<close> the page walker
  returns exactly \<open>N\<close> targets, in page order, as a function of the base address and the
  count alone.  For \<open>N = 1\<close> the only target is the bare base address.  For \<open>N \<ge> 2\<close> every
  page, page 1 included, is the base address followed by \<^verbatim>\<open>?p=<page>\<close>; no target is then
  the bare base address.
\<close>

theorem build_page_urls_targets:
  assumes "1 \<le> n"
  shows "length (build_page_urls b n) = nat n
       \<and> (n = 1 \<longrightarrow> build_page_urls b n = [b])
       \<and> (2 \<le> n \<longrightarrow> (\<forall>k < nat n. build_page_urls b n ! k = page_url b (Suc k))
                  \<and> b \<notin> set (build_page_urls b n))"
proof (intro conjI impI allI)
  show "length (build_page_urls b n) = nat n"
    using assms by (rule length_build_page_urls)
next
  assume "n = 1"
  then show "build_page_urls b n = [b]"
    by (simp add: build_page_urls_def)
next
  fix k
  assume "2 \<le> n" "k < nat n"
  then show "build_page_urls b n ! k = page_url b (Suc k)"
    by (rule nth_build_page_urls)
next
  assume "2 \<le> n"
  then show "b \<notin> set (build_page_urls b n)"
    by (auto simp: build_page_urls_def page_url_not_base)
qed

theorem build_page_urls_targets_witness:
  "build_page_urls ''https://eksisozluk.com/t--1'' 1 = [''https://eksisozluk.com/t--1'']
   \<and> build_page_urls ''https://eksisozluk.com/t--1'' 3 =
     [''https://eksisozluk.com/t--1?p=1'',
      ''https://eksisozluk.com/t--1?p=2'',
      ''https://eksisozluk.com/t--1?p=3'']
   \<and> length (build_page_urls ''https://eksisozluk.com/t--1'' 3) = 3
   \<and> ''https://eksisozluk.com/t--1'' \<notin> set (build_page_urls ''https://eksisozluk.com/t--1'' 3)"
proof -
  have h1: "(1::int) \<le> 1" by simp
  have h3: "(1::int) \<le> 3" by simp
  have e: "build_page_urls ''https://eksisozluk.com/t--1'' 3 =
     [''https://eksisozluk.com/t--1?p=1'',
      ''https://eksisozluk.com/t--1?p=2'',
      ''https://eksisozluk.com/t--1?p=3'']"
    by (simp add: build_page_urls_def page_url_def str_nat.simps digit_char_def
        upt_conv_Cons)
  from build_page_urls_targets [OF h1, of "''https://eksisozluk.com/t--1''"]
  have one: "build_page_urls ''https://eksisozluk.com/t--1'' 1 = [''https://eksisozluk.com/t--1'']"
    by simp
  from build_page_urls_targets [OF h3, of "''https://eksisozluk.com/t--1''"] e one
  show ?thesis by simp
qed

text \<open>
  The claim as stated fails for two pages: the first target is not the bare base address.
\<close>

theorem build_page_urls_page1_counterexample:
  "build_page_urls ''https://eksisozluk.com/t--1'' 2 =
     [''https://eksisozluk.com/t--1?p=1'', ''https://eksisozluk.com/t--1?p=2'']
   \<and> build_page_urls ''https://eksisozluk.com/t--1'' 2
       \<noteq> spec_page_urls ''https://eksisozluk.com/t--1'' 2"
  by (simp add: build_page_urls_def spec_page_urls_def page_url_def str_nat.simps
      digit_char_def upt_conv_Cons)

section \<open>The content-aware diff\<close>

lemmas storm_defs = storm_old_def storm_new_def storm_rewritten_def storm_padded_def
  other_old_def storm_restamped_def fresh_new_def

lemma foldl_upd_other:
  "k \<notin> id' ` set xs \<Longrightarrow> foldl (\<lambda>m entry. m(id' entry \<mapsto> entry)) m xs k = m k"
  by (induction xs arbitrary: m) auto

lemma old_map_of_last:
  assumes "old_data = ps @ old_entry # ss" "id' old_entry \<notin> id' ` set ss"
  shows "old_map_of old_data (id' old_entry) = Some old_entry"
  using assms by (simp add: old_map_of_def foldl_upd_other)

lemma old_map_of_dom:
  "old_map_of old_data i = Some e \<Longrightarrow> e \<in> set old_data \<and> id' e = i"
  unfolding old_map_of_def
proof (induction old_data rule: rev_induct)
  case Nil
  then show ?case by simp
next
  case (snoc x xs)
  then show ?case by (auto split: if_splits)
qed

lemma diff_loop_append:
  "diff_loop m (xs @ ys) = diff_loop m xs @ diff_loop m ys"
  by (induction xs) auto

lemma diff_step_types:
  "d \<in> set (diff_step m e) \<Longrightarrow> d_type d \<in> {''new'', ''appended'', ''edited''} \<and> d_id d = id' e"
  by (auto simp: diff_step_def Let_def split: option.splits if_splits)

lemma diff_loop_types:
  "d \<in> set (diff_loop m es) \<Longrightarrow>
     d_type d \<in> {''new'', ''appended'', ''edited''} \<and> d_id d \<in> id' ` set es"
proof (induction es)
  case Nil
  then show ?case by simp
next
  case (Cons e es)
  from Cons.prems have "d \<in> set (diff_step m e) \<or> d \<in> set (diff_loop m es)" by simp
  then show ?case
  proof
    assume "d \<in> set (diff_step m e)"
    from diff_step_types [OF this] show ?thesis by simp
  next
    assume "d \<in> set (diff_loop m es)"
    from Cons.IH [OF this] show ?thesis by simp
  qed
qed

lemma diff_loop_unchanged:
  assumes "m i = Some old_entry" "\<forall>e \<in> set es. id' e = i \<longrightarrow> content e = content old_entry"
  shows "i \<notin> d_id ` set (diff_loop m es)"
  using assms(2)
proof (induction es)
  case Nil
  then show ?case by simp
next
  case (Cons e es)
  have "i \<notin> d_id ` set (diff_step m e)"
  proof (cases "id' e = i")
    case True
    with Cons.prems assms(1) show ?thesis by (simp add: diff_step_def)
  next
    case False
    then show ?thesis using diff_step_types [of _ m e] by auto
  qed
  with Cons show ?case by auto
qed

text \<open>
  C3 (as amended).  For an id present in both lists whose content changed, where the old
  record is the last one of \<open>old_data\<close> with that id: when the new content starts with
  the old content and the rest is not all white space, the record is reported as
  \<^verbatim>\<open>appended\<close> and carries exactly the rest, white space at its start and end included;
  when the rest is all white space nothing is reported; when the new content does not
  start with the old content the record is reported as \<^verbatim>\<open>edited\<close> and carries the full
  new content.
\<close>

theorem diff_changed_content:
  assumes "old_data = ps @ old_entry # ss"
      and "id' old_entry = id' entry"
      and "id' entry \<notin> id' ` set ss"
      and "content entry \<noteq> content old_entry"
  shows "diff old_data (xs @ entry # ys) =
           diff old_data xs @
           (if prefix (content old_entry) (content entry) then
              (if strip (drop (length (content old_entry)) (content entry)) = [] then []
               else [\<lparr>d_id = id' entry, d_type = ''appended'',
                      d_content = drop (length (content old_entry)) (content entry),
                      d_timestamp = timestamp entry\<rparr>])
            else [\<lparr>d_id = id' entry, d_type = ''edited'', d_content = content entry,
                   d_timestamp = timestamp entry\<rparr>])
           @ diff old_data ys
       \<and> (prefix (content old_entry) (content entry) \<longrightarrow>
            content old_entry @ drop (length (content old_entry)) (content entry) = content entry)"
proof -
  have m: "old_map_of old_data (id' entry) = Some old_entry"
    using old_map_of_last [OF assms(1)] assms(2,3) by simp
  have step: "diff_step (old_map_of old_data) entry =
           (if prefix (content old_entry) (content entry) then
              (if strip (drop (length (content old_entry)) (content entry)) = [] then []
               else [\<lparr>d_id = id' entry, d_type = ''appended'',
                      d_content = drop (length (content old_entry)) (content entry),
                      d_timestamp = timestamp entry\<rparr>])
            else [\<lparr>d_id = id' entry, d_type = ''edited'', d_content = content entry,
                   d_timestamp = timestamp entry\<rparr>])"
    using m assms(4) by (simp add: diff_step_def Let_def)
  have "diff old_data (xs @ entry # ys) =
          diff old_data xs @ diff_step (old_map_of old_data) entry @ diff old_data ys"
    by (simp add: diff_def diff_loop_append)
  moreover have "prefix (content old_entry) (content entry) \<longrightarrow>
            content old_entry @ drop (length (content old_entry)) (content entry) = content entry"
    by (auto simp: prefix_def)
  ultimately show ?thesis using step by simp
qed

theorem diff_changed_content_witness:
  "diff [storm_old] [storm_new] =
     [\<lparr>d_id = ''1'', d_type = ''appended'', d_content = ''. update: 5.8 magnitude'',
       d_timestamp = ''01.01.2024 10:00 ~ 10:05''\<rparr>]
   \<and> diff [storm_old] [storm_rewritten] =
     [\<lparr>d_id = ''1'', d_type = ''edited'', d_content = ''totally different text'',
       d_timestamp = ''01.01.2024 10:00 ~ 10:07''\<rparr>]
   \<and> diff [storm_old] [storm_padded] = []"
proof -
  have d0: "diff [storm_old] [] = []"
    by (simp add: diff_def)
  have a: "[storm_old] = [] @ storm_old # []" by simp
  have n: "id' storm_old = id' storm_new" "id' storm_new \<notin> id' ` set []"
          "content storm_new \<noteq> content storm_old"
    by (simp_all add: storm_defs)
  have r: "id' storm_old = id' storm_rewritten" "id' storm_rewritten \<notin> id' ` set []"
          "content storm_rewritten \<noteq> content storm_old"
    by (simp_all add: storm_defs)
  have p: "id' storm_old = id' storm_padded" "id' storm_padded \<notin> id' ` set []"
          "content storm_padded \<noteq> content storm_old"
    by (simp_all add: storm_defs)
  from diff_changed_content [OF a n, of "[]" "[]"] d0
  have 1: "diff [storm_old] [storm_new] =
     [\<lparr>d_id = ''1'', d_type = ''appended'', d_content = ''. update: 5.8 magnitude'',
       d_timestamp = ''01.01.2024 10:00 ~ 10:05''\<rparr>]"
    by (simp add: storm_defs strip_def isspace_def)
  from diff_changed_content [OF a r, of "[]" "[]"] d0
  have 2: "diff [storm_old] [storm_rewritten] =
     [\<lparr>d_id = ''1'', d_type = ''edited'', d_content = ''totally different text'',
       d_timestamp = ''01.01.2024 10:00 ~ 10:07''\<rparr>]"
    by (simp add: storm_defs strip_def isspace_def)
  from diff_changed_content [OF a p, of "[]" "[]"] d0
  have 3: "diff [storm_old] [storm_padded] = []"
    by (simp add: storm_defs strip_def isspace_def)
  from 1 2 3 show ?thesis by simp
qed

text \<open>
  The delta of the specification's example keeps its leading \<^verbatim>\<open>". "\<close>, and a change that
  only appends white space is not reported as \<^verbatim>\<open>edited\<close>.
\<close>

theorem diff_appended_delta_counterexample:
  "map d_type (diff [storm_old] [storm_new]) = [''appended'']
   \<and> map d_content (diff [storm_old] [storm_new]) \<noteq> [''update: 5.8 magnitude'']
   \<and> content storm_padded \<noteq> content storm_old
   \<and> map d_type (diff [storm_old] [storm_padded]) \<noteq> [''edited'']"
  by (simp add: diff_def diff_step_def old_map_of_def storm_defs strip_def isspace_def Let_def)

text \<open>
  C10.  The content-aware diff never reports a deletion: every item has type \<^verbatim>\<open>new\<close>,
  \<^verbatim>\<open>appended\<close> or \<^verbatim>\<open>edited\<close> and the id of a record of \<open>new_data\<close>; an id of
  \<open>old_data\<close> that is absent from \<open>new_data\<close> has no item; and an id whose records in
  \<open>new_data\<close> all have the old content has no item, whatever their timestamps.
\<close>

theorem diff_emits_no_deleted:
  "(\<forall>d \<in> set (diff old_data new_data).
       d_type d \<in> {''new'', ''appended'', ''edited''} \<and> d_id d \<in> id' ` set new_data)
   \<and> (\<forall>i. i \<in> id' ` set old_data \<and> i \<notin> id' ` set new_data
          \<longrightarrow> i \<notin> d_id ` set (diff old_data new_data))
   \<and> (\<forall>ps old_entry ss.
          old_data = ps @ old_entry # ss \<and> id' old_entry \<notin> id' ` set ss
          \<and> (\<forall>e \<in> set new_data. id' e = id' old_entry \<longrightarrow> content e = content old_entry)
          \<longrightarrow> id' old_entry \<notin> d_id ` set (diff old_data new_data))"
proof (intro conjI ballI allI impI)
  fix d
  assume d: "d \<in> set (diff old_data new_data)"
  then have t: "d_type d \<in> {''new'', ''appended'', ''edited''} \<and> d_id d \<in> id' ` set new_data"
    unfolding diff_def by (rule diff_loop_types)
  from t show "d_type d \<in> {''new'', ''appended'', ''edited''}" by simp
  from t show "d_id d \<in> id' ` set new_data" by simp
next
  fix i
  assume "i \<in> id' ` set old_data \<and> i \<notin> id' ` set new_data"
  then show "i \<notin> d_id ` set (diff old_data new_data)"
    unfolding diff_def using diff_loop_types [of _ "old_map_of old_data" new_data] by blast
next
  fix ps old_entry ss
  assume a: "old_data = ps @ old_entry # ss \<and> id' old_entry \<notin> id' ` set ss
          \<and> (\<forall>e \<in> set new_data. id' e = id' old_entry \<longrightarrow> content e = content old_entry)"
  then have "old_map_of old_data (id' old_entry) = Some old_entry"
    using old_map_of_last by blast
  with a show "id' old_entry \<notin> d_id ` set (diff old_data new_data)"
    unfolding diff_def using diff_loop_unchanged by blast
qed

theorem diff_emits_no_deleted_witness:
  "diff [storm_old, other_old] [storm_restamped, fresh_new] =
     [\<lparr>d_id = ''3'', d_type = ''new'', d_content = ''hello'',
       d_timestamp = ''03.01.2024 08:00''\<rparr>]
   \<and> timestamp storm_restamped \<noteq> timestamp storm_old
   \<and> ''2'' \<notin> d_id ` set (diff [storm_old, other_old] [storm_restamped, fresh_new])
   \<and> ''1'' \<notin> d_id ` set (diff [storm_old, other_old] [storm_restamped, fresh_new])"
proof -
  note t = diff_emits_no_deleted [of "[storm_old, other_old]" "[storm_restamped, fresh_new]"]
  have del: "''2'' \<in> id' ` set [storm_old, other_old]
             \<and> ''2'' \<notin> id' ` set [storm_restamped, fresh_new]"
    by (simp add: storm_defs)
  have same: "[storm_old, other_old] = [] @ storm_old # [other_old]
          \<and> id' storm_old \<notin> id' ` set [other_old]
          \<and> (\<forall>e \<in> set [storm_restamped, fresh_new].
                id' e = id' storm_old \<longrightarrow> content e = content storm_old)"
    by (simp add: storm_defs)
  from t del have 2: "''2'' \<notin> d_id ` set (diff [storm_old, other_old] [storm_restamped, fresh_new])"
    by blast
  from t same have "id' storm_old \<notin> d_id ` set (diff [storm_old, other_old] [storm_restamped, fresh_new])"
    by blast
  then have 1: "''1'' \<notin> d_id ` set (diff [storm_old, other_old] [storm_restamped, fresh_new])"
    by (simp add: storm_defs)
  have e: "diff [storm_old, other_old] [storm_restamped, fresh_new] =
     [\<lparr>d_id = ''3'', d_type = ''new'', d_content = ''hello'',
       d_timestamp = ''03.01.2024 08:00''\<rparr>]"
    by (simp add: diff_def diff_step_def old_map_of_def storm_defs)
  have ts: "timestamp storm_restamped \<noteq> timestamp storm_old"
    by (simp add: storm_defs)
  from e ts 1 2 show ?thesis by simp
qed

section \<open>The transport fetcher\<close>

lemma fetch_loop_all_fail:
  assumes "\<forall>k < n - a. answers (sent w + k) = Request_exception" and "n = nat m"
  shows "fetch_loop answers target m [a ..< n] w =
           (Inr None, \<lparr>sent = sent w + (n - a),
                       trace = trace w @ concat (map (retry_trace target n) [a ..< n])\<rparr>)"
  using assms
proof (induction "n - a" arbitrary: a w)
  case 0
  then show ?case by simp
next
  case (Suc d)
  then have lt: "a < n" by linarith
  then have l: "[a ..< n] = a # [Suc a ..< n]" by (rule upt_conv_Cons)
  from Suc.prems(1) lt have f0: "answers (sent w) = Request_exception"
    by (metis add.right_neutral zero_less_diff)
  show ?case
  proof (cases "Suc a < n")
    case True
    let ?w = "w\<lparr>sent := sent w + 1, trace := trace w @ [Requested target, Slept (2 ^ a)]\<rparr>"
    have d: "d = n - Suc a" using Suc.hyps(2) by linarith
    have fl: "\<forall>k < n - Suc a. answers (sent ?w + k) = Request_exception"
    proof (intro allI impI)
      fix k assume "k < n - Suc a"
      then have "Suc k < n - a" by linarith
      with Suc.prems(1) have "answers (sent w + Suc k) = Request_exception" by blast
      then show "answers (sent ?w + k) = Request_exception" by simp
    qed
    from Suc.hyps(1) [OF d fl Suc.prems(2)]
    have ih: "fetch_loop answers target m [Suc a ..< n] ?w =
           (Inr None, \<lparr>sent = sent ?w + (n - Suc a),
                       trace = trace ?w @ concat (map (retry_trace target n) [Suc a ..< n])\<rparr>)" .
    have c: "int a < m - 1" using True Suc.prems(2) by linarith
    show ?thesis
      using True c f0 ih lt
      by (simp add: l Let_def RETRY_BACKOFF_BASE_def retry_trace_def)
  next
    case False
    with lt have e: "Suc a = n" by linarith
    then have c: "\<not> int a < m - 1" using Suc.prems(2) by linarith
    show ?thesis
      using c f0 e
      by (auto simp add: l Let_def retry_trace_def)
  qed
qed

text \<open>
  C9.  When every attempt of a fetch raises a \<^verbatim>\<open>RequestException\<close>, the fetcher sends
  exactly \<open>max_retries\<close> requests (3 by default) and no more, sleeps \<open>2 ^ k\<close> seconds
  after the failed attempt \<open>k\<close> (counted from 0) except after the last one, so that each
  delay is twice the one before, and returns \<^verbatim>\<open>None\<close> instead of raising.
\<close>

theorem fetch_exhausts_retries:
  assumes "\<forall>k < nat max_retries. answers (sent w + k) = Request_exception"
  shows "fetch_html_with_retry answers target max_retries w =
           (Inr None,
            \<lparr>sent = sent w + nat max_retries,
             trace = trace w @ concat (map (retry_trace target (nat max_retries)) [0 ..< nat max_retries])\<rparr>)"
  unfolding fetch_html_with_retry_def
  using fetch_loop_all_fail [of "nat max_retries" 0 answers w max_retries target] assms by simp

theorem fetch_exhausts_retries_witness:
  "fetch_html_with_retry (\<lambda>k. Request_exception) ''u'' MAX_RETRIES \<lparr>sent = 0, trace = []\<rparr> =
     (Inr None,
      \<lparr>sent = 3,
       trace = [Requested ''u'', Slept 1, Requested ''u'', Slept 2, Requested ''u'']\<rparr>)"
proof -
  have h: "\<forall>k < nat MAX_RETRIES.
             (\<lambda>k. Request_exception) (sent \<lparr>sent = 0, trace = []\<rparr> + k) = Request_exception"
    by simp
  have u: "[0 ..< nat MAX_RETRIES] = [0, 1, 2]"
    by (simp add: MAX_RETRIES_def upt_conv_Cons)
  from fetch_exhausts_retries [OF h, of "''u''"] show ?thesis
    by (simp add: u retry_trace_def) (simp add: MAX_RETRIES_def)
qed

section \<open>The record validator\<close>

lemma validate_entry_iff:
  "validate_entry e \<longleftrightarrow>
     (\<forall>f \<in> set required_fields. fmlookup e f \<noteq> None)
     \<and> (\<exists>s. fmlookup e ''id'' = Some (PStr s) \<and> s \<noteq> [])
     \<and> (\<exists>c. fmlookup e ''content'' = Some (PStr c))"
  by (auto simp: validate_entry_def is_nonempty_str_def is_str_def list_all_iff
           split: option.splits pyval.splits)

lemma valid_id: "validate_entry e \<Longrightarrow> fmlookup e ''id'' = Some (get_or e ''id'' PNone)"
  by (auto simp: validate_entry_iff get_or_def)

lemma valid_id_eq:
  "validate_entry p \<Longrightarrow> validate_entry e \<Longrightarrow>
     (get_or p ''id'' PNone = get_or e ''id'' PNone) = (fmlookup p ''id'' = fmlookup e ''id'')"
  by (auto simp: valid_id)

lemma validate_loop_snoc:
  "validate_loop (xs @ [e]) v er s =
     (let (v', er') = validate_loop xs v er s in
      if validate_entry e \<and> get_or e ''id'' PNone \<notin> set s
         \<and> (\<forall>p \<in> set xs. validate_entry p \<longrightarrow> fmlookup p ''id'' \<noteq> fmlookup e ''id'')
      then (v' @ [e], er') else (v', er' @ [invalid_entry_error e]))"
proof (induction xs arbitrary: v er s)
  case Nil
  then show ?case by (simp add: invalid_entry_error_def)
next
  case (Cons x xs)
  show ?case
  proof (cases "validate_entry x")
    case False
    then show ?thesis by (simp add: Cons.IH)
  next
    case vx: True
    show ?thesis
    proof (cases "get_or x ''id'' PNone \<in> set s")
      case True
      have "get_or e ''id'' PNone \<notin> set s \<and> validate_entry e \<Longrightarrow> fmlookup x ''id'' \<noteq> fmlookup e ''id''"
        using True vx valid_id_eq by metis
      then show ?thesis using True vx by (auto simp add: Cons.IH split: prod.splits)
    next
      case False
      have "validate_entry e \<Longrightarrow>
        (get_or e ''id'' PNone \<noteq> get_or x ''id'' PNone) = (fmlookup x ''id'' \<noteq> fmlookup e ''id'')"
        using vx valid_id_eq by metis
      then show ?thesis using False vx by (auto simp add: Cons.IH split: prod.splits)
    qed
  qed
qed

lemma validate_loop_length:
  "length (fst (validate_loop xs v er s)) + length (snd (validate_loop xs v er s)) =
     length xs + length v + length er"
  by (induction xs arbitrary: v er s) auto

text \<open>
  C6 (as amended).  A record passes the structural check if and only if it has all five
  required fields, its id is a non-empty string and its content is a string (possibly
  empty).  A record of a batch is accepted if and only if it passes the structural check
  and no earlier record of the batch that passes the structural check has the same id;
  otherwise it is rejected with one error and the rest of the batch is processed as
  before.  Every record is either accepted or reported, never both.  A batch of two
  records that both pass the structural check and share their id yields the first as
  the only accepted record and one duplicate-id error.
\<close>

theorem validate_entries_accepts:
  "(validate_entry e \<longleftrightarrow>
       (\<forall>f \<in> set required_fields. fmlookup e f \<noteq> None)
       \<and> (\<exists>s. fmlookup e ''id'' = Some (PStr s) \<and> s \<noteq> [])
       \<and> (\<exists>c. fmlookup e ''content'' = Some (PStr c)))
   \<and> validate_entries [] = ([], [])
   \<and> validate_entries (ps @ [e]) =
       (if validate_entry e
           \<and> (\<forall>p \<in> set ps. validate_entry p \<longrightarrow> fmlookup p ''id'' \<noteq> fmlookup e ''id'')
        then (fst (validate_entries ps) @ [e], snd (validate_entries ps))
        else (fst (validate_entries ps), snd (validate_entries ps) @ [invalid_entry_error e]))
   \<and> length (fst (validate_entries es)) + length (snd (validate_entries es)) = length es
   \<and> (validate_entry a \<and> validate_entry b \<and> fmlookup a ''id'' = fmlookup b ''id'' \<longrightarrow>
        validate_entries [a, b] = ([a], [Duplicate_entry_ID (get_or b ''id'' PNone)]))"
proof (intro conjI)
  show "validate_entry e \<longleftrightarrow>
       (\<forall>f \<in> set required_fields. fmlookup e f \<noteq> None)
       \<and> (\<exists>s. fmlookup e ''id'' = Some (PStr s) \<and> s \<noteq> [])
       \<and> (\<exists>c. fmlookup e ''content'' = Some (PStr c))"
    by (rule validate_entry_iff)
  show "validate_entries [] = ([], [])"
    by (simp add: validate_entries_def)
  show "validate_entries (ps @ [e]) =
       (if validate_entry e
           \<and> (\<forall>p \<in> set ps. validate_entry p \<longrightarrow> fmlookup p ''id'' \<noteq> fmlookup e ''id'')
        then (fst (validate_entries ps) @ [e], snd (validate_entries ps))
        else (fst (validate_entries ps), snd (validate_entries ps) @ [invalid_entry_error e]))"
    unfolding validate_entries_def validate_loop_snoc
    by (simp split: prod.splits)
  show "length (fst (validate_entries es)) + length (snd (validate_entries es)) = length es"
    using validate_loop_length [of es "[]" "[]" "[]"] by (simp add: validate_entries_def)
  show "validate_entry a \<and> validate_entry b \<and> fmlookup a ''id'' = fmlookup b ''id'' \<longrightarrow>
        validate_entries [a, b] = ([a], [Duplicate_entry_ID (get_or b ''id'' PNone)])"
    by (auto simp: validate_entries_def valid_id_eq)
qed

lemma valid_mk_entry: "i \<noteq> [] \<Longrightarrow> validate_entry (mk_entry i a t c s)"
  by (simp add: validate_entry_def mk_entry_def required_fields_def is_nonempty_str_def is_str_def)

theorem validate_entries_accepts_witness:
  "validate_entry rec1
   \<and> validate_entries [rec1, rec1_again] = ([rec1], [Duplicate_entry_ID (PStr ''1'')])
   \<and> validate_entries [no_content, rec1] = ([rec1], [Invalid_entry_structure (PStr ''1'')])
   \<and> length (fst (validate_entries [rec1, rec1_again]))
       + length (snd (validate_entries [rec1, rec1_again])) = 2"
proof -
  note t = validate_entries_accepts [of rec1 "[no_content]" "[rec1, rec1_again]" rec1 rec1_again]
  have v: "validate_entry rec1" "validate_entry rec1_again"
    by (simp_all add: rec1_def rec1_again_def valid_mk_entry)
  have i: "fmlookup rec1 ''id'' = fmlookup rec1_again ''id''"
          "get_or rec1_again ''id'' PNone = PStr ''1''"
    by (simp_all add: rec1_def rec1_again_def mk_entry_def get_or_def)
  have n: "\<not> validate_entry no_content"
          "invalid_entry_error no_content = Invalid_entry_structure (PStr ''1'')"
    by (simp_all add: invalid_entry_error_def validate_entry_def no_content_def
        required_fields_def get_or_def)
  have s: "validate_entries [no_content] = ([], [Invalid_entry_structure (PStr ''1'')])"
    by (simp add: validate_entries_def validate_entry_def no_content_def required_fields_def
        get_or_def)
  have p: "\<forall>p \<in> set [no_content]. validate_entry p \<longrightarrow> fmlookup p ''id'' \<noteq> fmlookup rec1 ''id''"
    using n by simp
  from t v i have 1: "validate_entries [rec1, rec1_again] = ([rec1], [Duplicate_entry_ID (PStr ''1'')])"
    by simp
  from t v p s have 2: "validate_entries [no_content, rec1] = ([rec1], [Invalid_entry_structure (PStr ''1'')])"
    by simp
  from t have 3: "length (fst (validate_entries [rec1, rec1_again]))
       + length (snd (validate_entries [rec1, rec1_again])) = 2"
    by simp
  from v 1 2 3 show ?thesis by simp
qed

text \<open>
  A structurally invalid record does not reserve its id: the later record with the same
  id is accepted although the id appeared earlier in the batch.
\<close>

theorem validate_entries_invalid_first_counterexample:
  "fmlookup no_content ''id'' = fmlookup (mk_entry ''1'' ''ali'' ''01.01.2024 10:00'' ''first'' ''t1'') ''id''
   \<and> validate_entries [no_content, mk_entry ''1'' ''ali'' ''01.01.2024 10:00'' ''first'' ''t1''] =
       ([mk_entry ''1'' ''ali'' ''01.01.2024 10:00'' ''first'' ''t1''],
        [Invalid_entry_structure (PStr ''1'')])"
  by (simp add: validate_entries_def validate_entry_def no_content_def mk_entry_def
      required_fields_def is_nonempty_str_def is_str_def get_or_def)

section \<open>The state store\<close>

lemma validate_entries_snoc:
  "validate_entries (ps @ [e]) =
       (if validate_entry e
           \<and> (\<forall>p \<in> set ps. validate_entry p \<longrightarrow> fmlookup p ''id'' \<noteq> fmlookup e ''id'')
        then (fst (validate_entries ps) @ [e], snd (validate_entries ps))
        else (fst (validate_entries ps), snd (validate_entries ps) @ [invalid_entry_error e]))"
  unfolding validate_entries_def validate_loop_snoc
  by (simp split: prod.splits)

lemma accepted_invariant:
  "(\<forall>x \<in> set (fst (validate_entries es)). validate_entry x \<and> x \<in> set es)
   \<and> distinct (map entry_key (fst (validate_entries es)))"
proof (induction es rule: rev_induct)
  case Nil
  then show ?case by (simp add: validate_entries_def)
next
  case (snoc e ps)
  show ?case
  proof (cases "validate_entry e
           \<and> (\<forall>p \<in> set ps. validate_entry p \<longrightarrow> fmlookup p ''id'' \<noteq> fmlookup e ''id'')")
    case True
    have "entry_key e \<notin> entry_key ` set (fst (validate_entries ps))"
    proof
      assume "entry_key e \<in> entry_key ` set (fst (validate_entries ps))"
      then obtain x where x: "x \<in> set (fst (validate_entries ps))" "entry_key x = entry_key e"
        by auto
      with snoc have "validate_entry x" "x \<in> set ps" by auto
      with True x(2) show False
        by (metis entry_key_def valid_id_eq)
    qed
    with True snoc show ?thesis
      by (auto simp: validate_entries_snoc)
  next
    case False
    with snoc show ?thesis
      by (auto simp: validate_entries_snoc)
  qed
qed

lemma update_fresh: "k \<notin> fst ` set al \<Longrightarrow> AList.update k v al = al @ [(k, v)]"
  by (induction al) auto

lemma state_of_valid_entries:
  assumes "\<forall>e \<in> set vs. validate_entry e"
      and "distinct (map entry_key vs)"
      and "entry_key ` set vs \<inter> fst ` set acc = {}"
  shows "state_of_entries (map PDict vs) acc = Inr (acc @ map (\<lambda>e. (entry_key e, e)) vs)"
  using assms
proof (induction vs arbitrary: acc)
  case Nil
  then show ?case by simp
next
  case (Cons e vs)
  have k: "entry_key e \<notin> fst ` set acc" using Cons.prems(3) by auto
  have d: "entry_key ` set vs \<inter> fst ` set (acc @ [(entry_key e, e)]) = {}"
    using Cons.prems(2,3) by auto
  from Cons.IH [of "acc @ [(entry_key e, e)]"] Cons.prems d
  have "state_of_entries (map PDict vs) (acc @ [(entry_key e, e)]) =
          Inr ((acc @ [(entry_key e, e)]) @ map (\<lambda>e. (entry_key e, e)) vs)"
    by simp
  then show ?case
    using Cons.prems(1) k by (simp add: bind_err_def update_fresh entry_key_def)
qed

lemma temp_not_state: "temp_file sf p \<noteq> sf" "sf \<noteq> temp_file sf p"
  by (simp_all add: temp_file_def)

lemma save_True_files:
  assumes "save_state_atomic flt p entries sf files = (True, files')"
  shows "files' sf = Some (Json_file (PList (map PDict (fst (validate_entries entries)))))"
  using assms
  by (auto simp: save_state_atomic_def save_failed_def rename_file_def temp_not_state Let_def
           split: prod.splits if_splits option.splits)

lemma load_state_of_saved:
  assumes "files sf = Some (Json_file (PList (map PDict (fst (validate_entries entries)))))"
  shows "load_state sf files =
           ([], map (\<lambda>e. (entry_key e, e)) (fst (validate_entries entries)))"
proof -
  have "state_of_entries (map PDict (fst (validate_entries entries))) [] =
          Inr ([] @ map (\<lambda>e. (entry_key e, e)) (fst (validate_entries entries)))"
    using accepted_invariant [of entries] by (intro state_of_valid_entries) auto
  then show ?thesis
    using assms by (simp add: load_state_def json_load_def)
qed

lemma rotate_loop_no_raise:
  "\<forall>i. \<not> rename_raises flt i \<Longrightarrow> fst (rotate_loop flt sf is files) = None"
  by (induction "is" arbitrary: files) auto

lemma save_succeeds:
  assumes "fst (validate_entries entries) \<noteq> []"
      and "\<forall>i. \<not> rename_raises flt i" "\<not> write_raises flt" "\<not> replace_raises flt"
  shows "fst (save_state_atomic flt p entries sf files)"
proof -
  have "fst (rotate_loop flt sf (rev [1 ..< STATE_BACKUP_COUNT]) files) = None"
    by (rule rotate_loop_no_raise [OF assms(2)])
  then have r: "fst (rotate_backups flt sf files) = None"
    by (cases "rotate_loop flt sf (rev [1 ..< STATE_BACKUP_COUNT]) files")
       (simp add: rotate_backups_def)
  show ?thesis
    using assms(1,3,4) r
    by (cases "validate_entries entries"; cases "rotate_backups flt sf files")
       (simp add: save_state_atomic_def Let_def)
qed

lemma valid_rec1: "validate_entry rec1" "get_or rec1 ''id'' PNone = PStr ''1''"
  by (simp_all add: rec1_def valid_mk_entry) (simp add: mk_entry_def get_or_def)

lemma invalid_no_content: "\<not> validate_entry no_content"
  by (simp add: validate_entry_def no_content_def required_fields_def)

lemma valid_rec1_again: "validate_entry rec1_again" "get_or rec1_again ''id'' PNone = PStr ''1''"
  by (simp_all add: rec1_again_def valid_mk_entry) (simp add: mk_entry_def get_or_def)

text \<open>
  C4.  When at least one record of the batch is accepted and no system call raises, saving
  succeeds; and whenever saving succeeds, loading the state file afterwards returns,
  without any warning, exactly the accepted records of the batch, each under its id, with
  no other key and every id once.
\<close>

theorem save_then_load_roundtrip:
  "(fst (validate_entries entries) \<noteq> []
      \<and> (\<forall>i. \<not> rename_raises flt i) \<and> \<not> write_raises flt \<and> \<not> replace_raises flt
      \<longrightarrow> fst (save_state_atomic flt p entries sf files))
   \<and> (fst (save_state_atomic flt p entries sf files) \<longrightarrow>
        load_state sf (snd (save_state_atomic flt p entries sf files)) =
          ([], map (\<lambda>e. (entry_key e, e)) (fst (validate_entries entries)))
        \<and> distinct (map entry_key (fst (validate_entries entries)))
        \<and> (\<forall>e \<in> set (fst (validate_entries entries)).
              fmlookup e ''id'' = Some (entry_key e)))"
proof (intro conjI impI)
  assume "fst (validate_entries entries) \<noteq> []
      \<and> (\<forall>i. \<not> rename_raises flt i) \<and> \<not> write_raises flt \<and> \<not> replace_raises flt"
  then show "fst (save_state_atomic flt p entries sf files)"
    using save_succeeds by blast
next
  assume "fst (save_state_atomic flt p entries sf files)"
  then have "save_state_atomic flt p entries sf files =
               (True, snd (save_state_atomic flt p entries sf files))"
    by (metis prod.collapse)
  from save_True_files [OF this]
  show "load_state sf (snd (save_state_atomic flt p entries sf files)) =
          ([], map (\<lambda>e. (entry_key e, e)) (fst (validate_entries entries)))"
    by (rule load_state_of_saved)
next
  show "distinct (map entry_key (fst (validate_entries entries)))"
    using accepted_invariant by blast
next
  show "\<forall>e \<in> set (fst (validate_entries entries)). fmlookup e ''id'' = Some (entry_key e)"
    using accepted_invariant [of entries] by (auto simp: entry_key_def valid_id)
qed

theorem save_then_load_roundtrip_witness:
  "fst (save_state_atomic no_faults 4242 [rec1, rec1_again, no_content] ''state.json'' corrupt_fs)
   \<and> load_state ''state.json''
        (snd (save_state_atomic no_faults 4242 [rec1, rec1_again, no_content] ''state.json''
                corrupt_fs))
       = ([], [(PStr ''1'', rec1)])"
proof -
  have v: "fst (validate_entries [rec1, rec1_again, no_content]) = [rec1]"
    by (simp add: validate_entries_def valid_rec1 valid_rec1_again invalid_no_content)
  have f: "(\<forall>i. \<not> rename_raises no_faults i) \<and> \<not> write_raises no_faults
           \<and> \<not> replace_raises no_faults"
    by (simp add: no_faults_def)
  from save_then_load_roundtrip
         [of "[rec1, rec1_again, no_content]" no_faults 4242 "''state.json''" corrupt_fs] v f
  show ?thesis by (simp add: entry_key_def valid_rec1)
qed

text \<open>
  C5.  When validation accepts no record of the batch, \<^verbatim>\<open>save_state_atomic\<close> returns
  False and leaves the whole file system as it was: no backup is rotated, nothing is
  copied and no temporary file is written, whichever system calls would fail.
\<close>

theorem save_rejected_batch:
  assumes "fst (validate_entries entries) = []"
  shows "save_state_atomic flt p entries sf files = (False, files)"
  using assms by (cases "validate_entries entries") (simp add: save_state_atomic_def)

theorem save_rejected_batch_witness:
  "save_state_atomic no_faults 4242 [no_content] ''state.json'' corrupt_fs = (False, corrupt_fs)"
proof -
  have h: "fst (validate_entries [no_content]) = []"
    by (simp add: validate_entries_def invalid_no_content)
  from save_rejected_batch [OF h] show ?thesis .
qed

lemma backup_loop_none:
  assumes "\<forall>i \<in> set is. backup_state sf files i = None"
  shows "snd (backup_loop sf files is) = []
       \<and> fst (backup_loop sf files is) \<noteq> []
       \<and> last (fst (backup_loop sf files is)) = All_backups_failed"
  using assms
proof (induction "is")
  case Nil
  then show ?case by simp
next
  case (Cons i rest)
  then have ih: "snd (backup_loop sf files rest) = []
       \<and> fst (backup_loop sf files rest) \<noteq> []
       \<and> last (fst (backup_loop sf files rest)) = All_backups_failed"
    by simp
  from Cons.prems have n: "backup_state sf files i = None" by simp
  obtain msgs st where r: "backup_loop sf files rest = (msgs, st)"
    by (cases "backup_loop sf files rest")
  with ih have m: "st = []" "msgs \<noteq> []" "last msgs = All_backups_failed" by simp_all
  show ?case
    using n r m
    by (auto simp: backup_state_def split: if_splits sum.splits pyval.splits)
qed

lemma backup_loop_first:
  assumes "\<forall>j \<in> set xs. backup_state sf files j = None"
      and "backup_state sf files k = Some st"
  shows "snd (backup_loop sf files (xs @ k # ys)) = st
       \<and> last (fst (backup_loop sf files (xs @ k # ys))) = Loaded_from_backup k"
  using assms(1)
proof (induction xs)
  case Nil
  show ?case
    using assms(2)
    by (auto simp: backup_state_def split: if_splits sum.splits pyval.splits)
next
  case (Cons i rest)
  then have ih: "snd (backup_loop sf files (rest @ k # ys)) = st
       \<and> last (fst (backup_loop sf files (rest @ k # ys))) = Loaded_from_backup k"
    by simp
  have ne: "fst (backup_loop sf files zs) \<noteq> []" for zs
    by (induction zs) (auto split: sum.splits pyval.splits prod.splits)
  from Cons.prems have n: "backup_state sf files i = None" by simp
  obtain msgs st' where r: "backup_loop sf files (rest @ k # ys) = (msgs, st')"
    by (cases "backup_loop sf files (rest @ k # ys)")
  with ih ne [of "rest @ k # ys"] have m: "st' = st" "msgs \<noteq> []" "last msgs = Loaded_from_backup k"
    by simp_all
  show ?case
    using n r m
    by (auto simp: backup_state_def split: if_splits sum.splits pyval.splits)
qed

lemma upt_split: "a \<le> k \<Longrightarrow> k < b \<Longrightarrow> [a ..< b] = [a ..< k] @ k # [Suc k ..< b]"
  by (metis le_add_diff_inverse less_imp_le_nat upt_add_eq_append upt_conv_Cons)

lemma from_backup_first:
  assumes "1 \<le> k" "k \<le> STATE_BACKUP_COUNT" "backup_state sf files k = Some st"
      and "\<forall>j. 1 \<le> j \<and> j < k \<longrightarrow> backup_state sf files j = None"
  shows "snd (load_state_from_backup sf files) = st
       \<and> last (fst (load_state_from_backup sf files)) = Loaded_from_backup k"
proof -
  have s: "[1 ..< STATE_BACKUP_COUNT + 1] = [1 ..< k] @ k # [Suc k ..< STATE_BACKUP_COUNT + 1]"
    using assms(1,2) by (intro upt_split) auto
  have "\<forall>j \<in> set [1 ..< k]. backup_state sf files j = None"
    using assms(4) by auto
  from backup_loop_first [OF this assms(3)] show ?thesis
    unfolding load_state_from_backup_def s .
qed

lemma from_backup_none:
  assumes "\<forall>j. 1 \<le> j \<and> j \<le> STATE_BACKUP_COUNT \<longrightarrow> backup_state sf files j = None"
  shows "snd (load_state_from_backup sf files) = []
       \<and> last (fst (load_state_from_backup sf files)) = All_backups_failed"
proof -
  have "\<forall>j \<in> set [1 ..< STATE_BACKUP_COUNT + 1]. backup_state sf files j = None"
    using assms by auto
  from backup_loop_none [OF this] show ?thesis
    unfolding load_state_from_backup_def by simp
qed

lemma from_backup_nonempty: "fst (load_state_from_backup sf files) \<noteq> []"
proof -
  have "fst (backup_loop sf files zs) \<noteq> []" for zs
    by (induction zs) (auto split: sum.splits pyval.splits prod.splits)
  then show ?thesis by (simp add: load_state_from_backup_def)
qed

lemma load_state_raises:
  assumes "files sf \<noteq> None" "primary_raises sf files"
  shows "snd (load_state sf files) = snd (load_state_from_backup sf files)
       \<and> last (fst (load_state sf files)) = last (fst (load_state_from_backup sf files))"
  using assms from_backup_nonempty [of sf files]
  by (cases "load_state_from_backup sf files")
     (auto simp: load_state_def primary_raises_def split: sum.splits pyval.splits)

text \<open>
  C2 (as amended).  Let the primary state file be present.  When reading it raises (it
  cannot be opened, is not JSON, or is a list with an element on which the validation
  itself raises), \<^verbatim>\<open>load\<close> tries the backups 1, 2, ... up to 5 in this order and returns
  the validated records of the first backup that exists, parses to a list and can be
  read; when no backup does, it returns the empty state and its last message is that all
  backups failed.  When the primary file parses to something that is not a list,
  \<^verbatim>\<open>load\<close> returns the empty state with a warning and consults no backup.  When it
  parses to a list that can be read, \<^verbatim>\<open>load\<close> returns the records of that list that
  pass validation and consults no backup: a record that fails validation is left out.
\<close>

theorem load_state_fallback:
  assumes "files sf \<noteq> None"
  shows "(primary_raises sf files \<longrightarrow>
            (\<forall>k st. 1 \<le> k \<and> k \<le> STATE_BACKUP_COUNT \<and> backup_state sf files k = Some st
                    \<and> (\<forall>j. 1 \<le> j \<and> j < k \<longrightarrow> backup_state sf files j = None)
               \<longrightarrow> snd (load_state sf files) = st
                   \<and> last (fst (load_state sf files)) = Loaded_from_backup k)
          \<and> ((\<forall>j. 1 \<le> j \<and> j \<le> STATE_BACKUP_COUNT \<longrightarrow> backup_state sf files j = None)
               \<longrightarrow> snd (load_state sf files) = []
                   \<and> last (fst (load_state sf files)) = All_backups_failed))
       \<and> (\<forall>v. json_load files sf = Inr v \<and> (\<forall>entries. v \<noteq> PList entries)
               \<longrightarrow> load_state sf files = ([Invalid_format_ignoring], []))
       \<and> (\<forall>entries st. json_load files sf = Inr (PList entries)
                        \<and> state_of_entries entries [] = Inr st
               \<longrightarrow> load_state sf files = ([], st))
       \<and> (\<forall>e vs acc. \<not> validate_entry e
               \<longrightarrow> state_of_entries (PDict e # vs) acc = state_of_entries vs acc)"
proof (intro conjI impI allI)
  fix k st
  assume p: "primary_raises sf files"
    and k: "1 \<le> k \<and> k \<le> STATE_BACKUP_COUNT \<and> backup_state sf files k = Some st
                    \<and> (\<forall>j. 1 \<le> j \<and> j < k \<longrightarrow> backup_state sf files j = None)"
  from k have "snd (load_state_from_backup sf files) = st
       \<and> last (fst (load_state_from_backup sf files)) = Loaded_from_backup k"
    by (intro from_backup_first) auto
  with load_state_raises [OF assms p]
  show "snd (load_state sf files) = st"
    and "last (fst (load_state sf files)) = Loaded_from_backup k"
    by simp_all
next
  assume p: "primary_raises sf files"
    and n: "\<forall>j. 1 \<le> j \<and> j \<le> STATE_BACKUP_COUNT \<longrightarrow> backup_state sf files j = None"
  from from_backup_none [OF n] load_state_raises [OF assms p]
  show "snd (load_state sf files) = []"
    and "last (fst (load_state sf files)) = All_backups_failed"
    by simp_all
next
  fix v
  assume "json_load files sf = Inr v \<and> (\<forall>entries. v \<noteq> PList entries)"
  then show "load_state sf files = ([Invalid_format_ignoring], [])"
    using assms by (cases v) (auto simp: load_state_def)
next
  fix entries st
  assume "json_load files sf = Inr (PList entries) \<and> state_of_entries entries [] = Inr st"
  then show "load_state sf files = ([], st)"
    using assms by (auto simp: load_state_def)
next
  fix e vs acc
  assume "\<not> validate_entry e"
  then show "state_of_entries (PDict e # vs) acc = state_of_entries vs acc"
    by (simp add: bind_err_def)
qed

lemma backup_paths:
  "backup_file ''state.json'' 1 = ''state.json.backup.1''"
  "backup_file ''state.json'' (Suc 0) = ''state.json.backup.1''"
  "backup_file ''state.json'' 2 = ''state.json.backup.2''"
  "backup_file ''state.json'' 3 = ''state.json.backup.3''"
  "backup_file ''state.json'' 4 = ''state.json.backup.4''"
  "backup_file ''state.json'' 5 = ''state.json.backup.5''"
  by (simp_all add: backup_file_def str_nat.simps digit_char_def)

lemma backup_indices: "[1 ..< STATE_BACKUP_COUNT + 1] = [1, 2, 3, 4, 5]"
  by code_simp

lemma load_state_from_backup_unfold:
  "load_state_from_backup sf files = backup_loop sf files [1, 2, 3, 4, 5]"
  by (simp only: load_state_from_backup_def backup_indices)

lemmas load_eval = backup_state_def load_state_def load_state_from_backup_unfold json_load_def
  backup_paths bind_err_def valid_rec1 invalid_no_content
  primary_raises_def

theorem load_state_fallback_witness:
  "load_state ''state.json'' corrupt_fs =
     ([Error_loading_state_file, Attempting_backup 1, Backup_also_corrupted 1,
       Attempting_backup 2, Loaded_from_backup 2],
      [(PStr ''1'', rec1)])"
proof -
  have e: "corrupt_fs ''state.json'' \<noteq> None"
    by (simp add: corrupt_fs_def)
  have p: "primary_raises ''state.json'' corrupt_fs"
    by (simp add: load_eval corrupt_fs_def)
  have b2: "backup_state ''state.json'' corrupt_fs 2 = Some [(PStr ''1'', rec1)]"
    by (simp add: load_eval corrupt_fs_def)
  have b1: "backup_state ''state.json'' corrupt_fs 1 = None"
    by (simp add: load_eval corrupt_fs_def)
  have b: "\<forall>j. 1 \<le> j \<and> j < (2::nat) \<longrightarrow> backup_state ''state.json'' corrupt_fs j = None"
  proof (intro allI impI)
    fix j :: nat assume "1 \<le> j \<and> j < 2"
    then have "j = 1" by linarith
    with b1 show "backup_state ''state.json'' corrupt_fs j = None" by simp
  qed
  have k: "1 \<le> (2::nat) \<and> 2 \<le> STATE_BACKUP_COUNT" by (simp add: STATE_BACKUP_COUNT_def)
  from load_state_fallback [of corrupt_fs "''state.json''", OF e] p k b2 b
  have "snd (load_state ''state.json'' corrupt_fs) = [(PStr ''1'', rec1)]
      \<and> last (fst (load_state ''state.json'' corrupt_fs)) = Loaded_from_backup 2"
    by blast
  moreover have "fst (load_state ''state.json'' corrupt_fs) =
     [Error_loading_state_file, Attempting_backup 1, Backup_also_corrupted 1,
       Attempting_backup 2, Loaded_from_backup 2]"
    by (simp add: load_eval corrupt_fs_def)
  ultimately show ?thesis by (simp add: prod_eq_iff)
qed

text \<open>
  A primary file of the wrong shape, or one whose only record fails validation, is not
  replaced by the valid first backup.
\<close>

theorem load_state_no_fallback_counterexample:
  "backup_state ''state.json'' wrong_shape_fs 1 = Some [(PStr ''1'', rec1)]
   \<and> load_state ''state.json'' wrong_shape_fs = ([Invalid_format_ignoring], [])
   \<and> backup_state ''state.json'' invalid_record_fs 1 = Some [(PStr ''1'', rec1)]
   \<and> load_state ''state.json'' invalid_record_fs = ([], [])"
  by (simp add: load_eval wrong_shape_fs_def invalid_record_fs_def)

section \<open>The diff engine\<close>

lemma current_ids_iff:
  "k \<in> current_ids es \<longleftrightarrow> (\<exists>e \<in> set es. fmlookup e ''id'' = Some k)"
  by (force simp: current_ids_def in_these_eq image_iff)

lemma bind_err_Inr:
  "bind_err m f = Inr y \<longleftrightarrow> (\<exists>v. m = Inr v \<and> f v = Inr y)"
  by (cases m) (simp_all add: bind_err_def)

lemma getitem_Inr: "getitem d k = Inr v \<longleftrightarrow> fmlookup d k = Some v"
  by (simp add: getitem_def split: option.splits)

lemma lookup_Inr: "lookup d k = Inr e \<longleftrightarrow> map_of d k = Some e"
  by (simp add: lookup_def split: option.splits)

lemma map_err_Inr:
  "map_err f xs = Inr ys \<longleftrightarrow> list_all2 (\<lambda>x y. f x = Inr y) xs ys"
proof (induction xs arbitrary: ys)
  case Nil
  then show ?case by auto
next
  case (Cons x xs)
  show ?case
    by (cases ys) (auto simp: bind_err_Inr Cons.IH)
qed

lemma find_app:
  "find P (xs @ ys) = (case find P xs of Some x \<Rightarrow> Some x | None \<Rightarrow> find P ys)"
  by (induction xs) auto

lemma current_record_Cons:
  "current_record (e # es) k =
     (case current_record es k of
        Some x \<Rightarrow> Some x
      | None \<Rightarrow> if fmlookup e ''id'' = Some k then Some e else None)"
  by (simp add: current_record_def find_app split: option.splits)

lemma dict_by_id_Cons:
  "dict_by_id (e # es) acc = Inr cbi \<longleftrightarrow>
     (\<exists>k0. fmlookup e ''id'' = Some k0 \<and> hashable k0
           \<and> dict_by_id es (AList.update k0 e acc) = Inr cbi)"
  by (auto simp: bind_err_Inr getitem_Inr split: if_splits)

lemma dict_by_id_keys:
  "dict_by_id es acc = Inr cbi \<Longrightarrow> fst ` set cbi = fst ` set acc \<union> current_ids es"
proof (induction es arbitrary: acc)
  case Nil
  then show ?case by (simp add: current_ids_def)
next
  case (Cons e es)
  from Cons.prems obtain k0 where k: "fmlookup e ''id'' = Some k0"
      and r: "dict_by_id es (AList.update k0 e acc) = Inr cbi"
    unfolding dict_by_id_Cons by blast
  have "current_ids (e # es) = insert k0 (current_ids es)"
    using k by (auto simp: current_ids_iff)
  with Cons.IH [OF r] show ?case
    by (simp add: AList.dom_update)
qed

lemma dict_by_id_map_of:
  "dict_by_id es acc = Inr cbi \<Longrightarrow>
     map_of cbi k = (case current_record es k of Some e \<Rightarrow> Some e | None \<Rightarrow> map_of acc k)"
proof (induction es arbitrary: acc)
  case Nil
  then show ?case by (simp add: current_record_def)
next
  case (Cons e es)
  from Cons.prems obtain k0 where k: "fmlookup e ''id'' = Some k0"
      and r: "dict_by_id es (AList.update k0 e acc) = Inr cbi"
    unfolding dict_by_id_Cons by blast
  from Cons.IH [OF r] k show ?case
    by (auto simp: current_record_Cons AList.update_conv' split: option.splits)
qed

lemma dict_by_id_distinct:
  "dict_by_id es acc = Inr cbi \<Longrightarrow> distinct (map fst acc) \<Longrightarrow> distinct (map fst cbi)"
proof (induction es arbitrary: acc)
  case Nil
  then show ?case by simp
next
  case (Cons e es)
  from Cons.prems(1) obtain k0 where
      r: "dict_by_id es (AList.update k0 e acc) = Inr cbi"
    unfolding dict_by_id_Cons by blast
  from Cons.IH [OF r] Cons.prems(2) show ?case
    by (simp add: AList.distinct_update)
qed

lemma dict_by_id_empty:
  assumes "dict_by_id es [] = Inr cbi"
  shows "set (map fst cbi) = current_ids es" "map_of cbi = current_record es"
        "distinct (map fst cbi)"
proof -
  show "set (map fst cbi) = current_ids es"
    using dict_by_id_keys [OF assms] by simp
  show "map_of cbi = current_record es"
    using dict_by_id_map_of [OF assms] by (auto simp: fun_eq_iff split: option.splits)
  show "distinct (map fst cbi)"
    using dict_by_id_distinct [OF assms] by simp
qed

lemma bind_err_InrE:
  assumes "bind_err m f = Inr y"
  obtains v where "m = Inr v" "f v = Inr y"
  using assms by (cases m) (simp_all add: bind_err_def)

lemma lookups_map_of:
  "list_all2 (\<lambda>k e. lookup d k = Inr e) ids es \<Longrightarrow> map Some es = map (map_of d) ids"
  by (induction rule: list_all2_induct) (simp_all add: lookup_Inr)

lemma edited_record_id: "edited_record k c p = Inr r \<Longrightarrow> ed_id r = k"
  unfolding edited_record_def
  by (elim bind_err_InrE) auto

lemma changed_Inr:
  assumes "changed c p = Inr b"
  shows "b = (fmlookup c ''content'' \<noteq> fmlookup p ''content''
          \<or> fmlookup c ''timestamp'' \<noteq> fmlookup p ''timestamp'')"
proof -
  from assms obtain cc pc where cc: "fmlookup c ''content'' = Some cc"
      and pc: "fmlookup p ''content'' = Some pc"
      and r: "(if cc \<noteq> pc then Inr True
               else bind_err (getitem c ''timestamp'') (\<lambda>ct.
                    bind_err (getitem p ''timestamp'') (\<lambda>pt. Inr (ct \<noteq> pt)))) = Inr b"
    unfolding changed_def by (elim bind_err_InrE) (simp add: getitem_Inr)
  show ?thesis
  proof (cases "cc = pc")
    case False
    with r cc pc show ?thesis by simp
  next
    case True
    with r have "bind_err (getitem c ''timestamp'') (\<lambda>ct.
                    bind_err (getitem p ''timestamp'') (\<lambda>pt. Inr (ct \<noteq> pt))) = Inr b"
      by simp
    then obtain ct pt where "fmlookup c ''timestamp'' = Some ct"
        "fmlookup p ''timestamp'' = Some pt" "b = (ct \<noteq> pt)"
      by (elim bind_err_InrE) (auto simp: getitem_Inr)
    with True cc pc show ?thesis by simp
  qed
qed

lemma edited_step_Inr:
  assumes "edited_step cbi prev k = Inr step"
  shows "\<exists>c p. map_of cbi k = Some c \<and> map_of prev k = Some p
           \<and> ((step = [] \<and> \<not> (fmlookup c ''content'' \<noteq> fmlookup p ''content''
                               \<or> fmlookup c ''timestamp'' \<noteq> fmlookup p ''timestamp''))
              \<or> (\<exists>r. step = [r] \<and> ed_id r = k \<and> edited_record k c p = Inr r
                     \<and> (fmlookup c ''content'' \<noteq> fmlookup p ''content''
                        \<or> fmlookup c ''timestamp'' \<noteq> fmlookup p ''timestamp'')))"
proof -
  from assms obtain c p b where c: "map_of cbi k = Some c" and p: "map_of prev k = Some p"
      and b: "changed c p = Inr b"
      and s: "(if b then bind_err (edited_record k c p) (\<lambda>r. Inr [r]) else Inr []) = Inr step"
    unfolding edited_step_def by (elim bind_err_InrE) (simp add: lookup_Inr)
  show ?thesis
  proof (cases b)
    case False
    with s have "step = []" by simp
    with changed_Inr [OF b] False c p show ?thesis by blast
  next
    case True
    with s obtain r where r: "edited_record k c p = Inr r" "step = [r]"
      by (auto elim: bind_err_InrE)
    with changed_Inr [OF b] True c p edited_record_id [OF r(1)] show ?thesis by blast
  qed
qed

lemma steps_ids:
  assumes "list_all2 (\<lambda>k step. (step = [] \<and> \<not> P k)
                               \<or> (\<exists>r. step = [r] \<and> ed_id r = k \<and> P k \<and> Q r)) ids steps"
      and "distinct ids"
  shows "distinct (map ed_id (concat steps))
       \<and> ed_id ` set (concat steps) = {k \<in> set ids. P k}
       \<and> (\<forall>r \<in> set (concat steps). Q r)"
  using assms
proof (induction rule: list_all2_induct)
  case Nil
  then show ?case by simp
next
  case (Cons k ks step steps)
  then have ih: "distinct (map ed_id (concat steps))"
      "ed_id ` set (concat steps) = {k \<in> set ks. P k}" "\<forall>r \<in> set (concat steps). Q r"
    by simp_all
  from Cons.prems have nk: "k \<notin> set ks" by simp
  from Cons.hyps(1) show ?case
  proof
    assume "step = [] \<and> \<not> P k"
    with ih show ?thesis by auto
  next
    assume "\<exists>r. step = [r] \<and> ed_id r = k \<and> P k \<and> Q r"
    then obtain r where r: "step = [r]" "ed_id r = k" "P k" "Q r" by blast
    have "k \<notin> ed_id ` set (concat steps)" using ih(2) nk by simp
    with r ih show ?thesis by auto
  qed
qed

lemma compute_diff_Inr:
  assumes "compute_diff cur prev = Inr d"
  obtains cbi steps where
    "dict_by_id cur [] = Inr cbi"
    "list_all2 (\<lambda>k e. lookup cbi k = Inr e)
       (filter (\<lambda>eid. eid \<notin> set (remdups (map fst prev))) (remdups (map fst cbi)))
       (new_entries d)"
    "list_all2 (\<lambda>k e. lookup prev k = Inr e)
       (filter (\<lambda>eid. eid \<notin> set (remdups (map fst cbi))) (remdups (map fst prev)))
       (deleted_entries d)"
    "list_all2 (\<lambda>k s. edited_step cbi prev k = Inr s)
       (filter (\<lambda>eid. eid \<in> set (remdups (map fst prev))) (remdups (map fst cbi)))
       steps"
    "edited_entries d = concat steps"
    "diff_summary d = \<lparr>new_count = length (new_entries d),
                       edited_count = length (edited_entries d),
                       deleted_count = length (deleted_entries d),
                       total_current = length cur, total_previous = length prev\<rparr>"
  using assms unfolding compute_diff_def Let_def
  by (elim bind_err_InrE) (auto simp: map_err_Inr)

lemma compute_diff_sets:
  assumes "compute_diff cur prev = Inr d"
  shows "\<exists>ids. distinct ids \<and> set ids = current_ids cur - previous_ids prev
               \<and> map Some (new_entries d) = map (current_record cur) ids"
    and "\<exists>ids. distinct ids \<and> set ids = previous_ids prev - current_ids cur
               \<and> map Some (deleted_entries d) = map (map_of prev) ids"
    and "distinct (map ed_id (edited_entries d))"
    and "ed_id ` set (edited_entries d) =
           {k \<in> current_ids cur \<inter> previous_ids prev. record_changed cur prev k}"
    and "\<forall>r \<in> set (edited_entries d). \<exists>c p.
            current_record cur (ed_id r) = Some c \<and> map_of prev (ed_id r) = Some p
            \<and> edited_record (ed_id r) c p = Inr r"
    and "diff_summary d = \<lparr>new_count = length (new_entries d),
                       edited_count = length (edited_entries d),
                       deleted_count = length (deleted_entries d),
                       total_current = length cur, total_previous = length prev\<rparr>"
proof -
  from assms obtain cbi steps where
    cbi: "dict_by_id cur [] = Inr cbi"
    and n: "list_all2 (\<lambda>k e. lookup cbi k = Inr e)
       (filter (\<lambda>eid. eid \<notin> set (remdups (map fst prev))) (remdups (map fst cbi)))
       (new_entries d)"
    and dl: "list_all2 (\<lambda>k e. lookup prev k = Inr e)
       (filter (\<lambda>eid. eid \<notin> set (remdups (map fst cbi))) (remdups (map fst prev)))
       (deleted_entries d)"
    and st: "list_all2 (\<lambda>k s. edited_step cbi prev k = Inr s)
       (filter (\<lambda>eid. eid \<in> set (remdups (map fst prev))) (remdups (map fst cbi)))
       steps"
    and ed: "edited_entries d = concat steps"
    and sm: "diff_summary d = \<lparr>new_count = length (new_entries d),
                       edited_count = length (edited_entries d),
                       deleted_count = length (deleted_entries d),
                       total_current = length cur, total_previous = length prev\<rparr>"
    by (rule compute_diff_Inr)
  note k = dict_by_id_empty [OF cbi]
  let ?new = "filter (\<lambda>eid. eid \<notin> set (remdups (map fst prev))) (remdups (map fst cbi))"
  let ?del = "filter (\<lambda>eid. eid \<notin> set (remdups (map fst cbi))) (remdups (map fst prev))"
  let ?com = "filter (\<lambda>eid. eid \<in> set (remdups (map fst prev))) (remdups (map fst cbi))"
  have sn: "set ?new = current_ids cur - previous_ids prev"
    using k(1) by (auto simp: previous_ids_def)
  have sd: "set ?del = previous_ids prev - current_ids cur"
    using k(1) by (auto simp: previous_ids_def)
  have sc: "set ?com = current_ids cur \<inter> previous_ids prev"
    using k(1) by (auto simp: previous_ids_def)
  have "map Some (new_entries d) = map (current_record cur) ?new"
    using lookups_map_of [OF n] k(2) by simp
  with sn show "\<exists>ids. distinct ids \<and> set ids = current_ids cur - previous_ids prev
               \<and> map Some (new_entries d) = map (current_record cur) ids"
    by (intro exI [of _ ?new]) simp
  have "map Some (deleted_entries d) = map (map_of prev) ?del"
    using lookups_map_of [OF dl] by simp
  with sd show "\<exists>ids. distinct ids \<and> set ids = previous_ids prev - current_ids cur
               \<and> map Some (deleted_entries d) = map (map_of prev) ids"
    by (intro exI [of _ ?del]) simp
  have "list_all2 (\<lambda>k step. (step = [] \<and> \<not> record_changed cur prev k)
            \<or> (\<exists>r. step = [r] \<and> ed_id r = k \<and> record_changed cur prev k
                   \<and> (\<exists>c p. current_record cur (ed_id r) = Some c
                            \<and> map_of prev (ed_id r) = Some p
                            \<and> edited_record (ed_id r) c p = Inr r))) ?com steps"
  proof (rule list_all2_mono [OF st])
    fix k0 s
    assume "edited_step cbi prev k0 = Inr s"
    from edited_step_Inr [OF this] obtain c p where
      c: "current_record cur k0 = Some c" and p: "map_of prev k0 = Some p"
      and r: "(s = [] \<and> \<not> (fmlookup c ''content'' \<noteq> fmlookup p ''content''
                               \<or> fmlookup c ''timestamp'' \<noteq> fmlookup p ''timestamp''))
              \<or> (\<exists>r. s = [r] \<and> ed_id r = k0 \<and> edited_record k0 c p = Inr r
                     \<and> (fmlookup c ''content'' \<noteq> fmlookup p ''content''
                        \<or> fmlookup c ''timestamp'' \<noteq> fmlookup p ''timestamp''))"
      unfolding k(2) by blast
    have rc: "record_changed cur prev k0 =
               (fmlookup c ''content'' \<noteq> fmlookup p ''content''
                \<or> fmlookup c ''timestamp'' \<noteq> fmlookup p ''timestamp'')"
      by (simp add: record_changed_def field_of_def c p)
    from r show "(s = [] \<and> \<not> record_changed cur prev k0)
            \<or> (\<exists>r. s = [r] \<and> ed_id r = k0 \<and> record_changed cur prev k0
                   \<and> (\<exists>c p. current_record cur (ed_id r) = Some c
                            \<and> map_of prev (ed_id r) = Some p
                            \<and> edited_record (ed_id r) c p = Inr r))"
    proof
      assume "s = [] \<and> \<not> (fmlookup c ''content'' \<noteq> fmlookup p ''content''
                               \<or> fmlookup c ''timestamp'' \<noteq> fmlookup p ''timestamp'')"
      with rc show ?thesis by blast
    next
      assume "\<exists>r. s = [r] \<and> ed_id r = k0 \<and> edited_record k0 c p = Inr r
                     \<and> (fmlookup c ''content'' \<noteq> fmlookup p ''content''
                        \<or> fmlookup c ''timestamp'' \<noteq> fmlookup p ''timestamp'')"
      then obtain r0 where "s = [r0]" "ed_id r0 = k0" "edited_record k0 c p = Inr r0"
          "fmlookup c ''content'' \<noteq> fmlookup p ''content''
                        \<or> fmlookup c ''timestamp'' \<noteq> fmlookup p ''timestamp''"
        by blast
      with rc c p show ?thesis by blast
    qed
  qed
  moreover have "distinct ?com" by simp
  ultimately have e3: "distinct (map ed_id (concat steps))
       \<and> ed_id ` set (concat steps) = {k \<in> set ?com. record_changed cur prev k}
       \<and> (\<forall>r \<in> set (concat steps). \<exists>c p. current_record cur (ed_id r) = Some c
                            \<and> map_of prev (ed_id r) = Some p
                            \<and> edited_record (ed_id r) c p = Inr r)"
    by (rule steps_ids)
  from e3 show "distinct (map ed_id (edited_entries d))"
    unfolding ed by blast
  from e3 show "ed_id ` set (edited_entries d) =
           {k \<in> current_ids cur \<inter> previous_ids prev. record_changed cur prev k}"
    unfolding ed sc by blast
  from e3 show "\<forall>r \<in> set (edited_entries d). \<exists>c p.
            current_record cur (ed_id r) = Some c \<and> map_of prev (ed_id r) = Some p
            \<and> edited_record (ed_id r) c p = Inr r"
    unfolding ed by blast
  from sm show "diff_summary d = \<lparr>new_count = length (new_entries d),
                       edited_count = length (edited_entries d),
                       deleted_count = length (deleted_entries d),
                       total_current = length cur, total_previous = length prev\<rparr>" .
qed

lemma mk_entry_fields:
  "fmlookup (mk_entry i a t c s) ''id'' = Some (PStr i)"
  "fmlookup (mk_entry i a t c s) ''author'' = Some (PStr a)"
  "fmlookup (mk_entry i a t c s) ''timestamp'' = Some (PStr t)"
  "fmlookup (mk_entry i a t c s) ''content'' = Some (PStr c)"
  "fmlookup (mk_entry i a t c s) ''scraped_at'' = Some (PStr s)"
  by (simp_all add: mk_entry_def)

lemma scen_eval: "compute_diff scen_cur scen_prev = Inr scen_diff"
  by (simp add: compute_diff_def scen_cur_def scen_prev_def scen_diff_def bind_err_def
      getitem_def lookup_def edited_step_def changed_def edited_record_def mk_entry_fields
      Let_def)

lemma scen_ids:
  "current_ids scen_cur = {PStr ''1'', PStr ''2'', PStr ''4'', PStr ''5''}"
  "previous_ids scen_prev = {PStr ''1'', PStr ''2'', PStr ''3''}"
  by (auto simp: current_ids_iff scen_cur_def previous_ids_def scen_prev_def mk_entry_fields)

lemma distinct_singleton:
  assumes "distinct xs" "set xs = {a}"
  shows "xs = [a]"
proof -
  have "length xs = card (set xs)" using assms(1) by (simp add: distinct_card)
  then have "length xs = 1" using assms(2) by simp
  then obtain x where "xs = [x]" by (cases xs) auto
  with assms(2) show ?thesis by simp
qed

lemma compute_diff_counts:
  assumes "compute_diff cur prev = Inr d"
  shows "diff_summary d =
           \<lparr>new_count = card (current_ids cur - previous_ids prev),
            edited_count = card {k \<in> current_ids cur \<inter> previous_ids prev.
                                   record_changed cur prev k},
            deleted_count = card (previous_ids prev - current_ids cur),
            total_current = length cur, total_previous = length prev\<rparr>"
proof -
  note s = compute_diff_sets [OF assms]
  from s(1) obtain ids where i: "distinct ids" "set ids = current_ids cur - previous_ids prev"
      "map Some (new_entries d) = map (current_record cur) ids" by blast
  from i(3) have "length (new_entries d) = length ids"
    by (metis length_map)
  with i(1,2) have n: "length (new_entries d) = card (current_ids cur - previous_ids prev)"
    by (metis distinct_card)
  from s(2) obtain ds where j: "distinct ds" "set ds = previous_ids prev - current_ids cur"
      "map Some (deleted_entries d) = map (map_of prev) ds" by blast
  from j(3) have "length (deleted_entries d) = length ds"
    by (metis length_map)
  with j(1,2) have dl: "length (deleted_entries d) = card (previous_ids prev - current_ids cur)"
    by (metis distinct_card)
  have "length (edited_entries d) = card (set (map ed_id (edited_entries d)))"
    using s(3) by (metis distinct_card length_map)
  with s(4) have e: "length (edited_entries d) =
      card {k \<in> current_ids cur \<inter> previous_ids prev. record_changed cur prev k}"
    by simp
  from s(6) n dl e show ?thesis by simp
qed

lemma map_err_total:
  "\<forall>x \<in> set xs. \<exists>y. f x = Inr y \<Longrightarrow> \<exists>ys. map_err f xs = Inr ys"
proof (induction xs)
  case Nil
  then show ?case by simp
next
  case (Cons x xs)
  then obtain y ys where "f x = Inr y" "map_err f xs = Inr ys" by auto
  then show ?case by (simp add: bind_err_def)
qed

lemma valid_fields:
  assumes "validate_entry e"
  shows "\<exists>i a t c s. fmlookup e ''id'' = Some (PStr i) \<and> fmlookup e ''author'' = Some a
           \<and> fmlookup e ''timestamp'' = Some t \<and> fmlookup e ''content'' = Some c
           \<and> fmlookup e ''scraped_at'' = Some s"
proof -
  from assms have f: "\<forall>f \<in> set required_fields. fmlookup e f \<noteq> None"
      and i: "\<exists>s. fmlookup e ''id'' = Some (PStr s) \<and> s \<noteq> []"
    unfolding validate_entry_iff by blast+
  from f have "fmlookup e ''author'' \<noteq> None" "fmlookup e ''timestamp'' \<noteq> None"
      "fmlookup e ''content'' \<noteq> None" "fmlookup e ''scraped_at'' \<noteq> None"
    by (simp_all add: required_fields_def)
  with i show ?thesis by auto
qed

lemma dict_by_id_total:
  "\<forall>e \<in> set es. validate_entry e \<Longrightarrow> \<exists>cbi. dict_by_id es acc = Inr cbi"
proof (induction es arbitrary: acc)
  case Nil
  then show ?case by simp
next
  case (Cons e es)
  then have "validate_entry e" by simp
  from valid_fields [OF this] obtain i where i: "fmlookup e ''id'' = Some (PStr i)" by blast
  from Cons obtain cbi where "dict_by_id es (AList.update (PStr i) e acc) = Inr cbi"
    by fastforce
  with i show ?case by (simp add: bind_err_def getitem_def)
qed

lemma edited_step_total:
  assumes "map_of cbi k = Some c" "map_of prev k = Some p" "validate_entry c" "validate_entry p"
  shows "\<exists>s. edited_step cbi prev k = Inr s"
proof -
  from valid_fields [OF assms(3)] obtain ci ca ct cc cs where
    c: "fmlookup c ''id'' = Some (PStr ci)" "fmlookup c ''author'' = Some ca"
       "fmlookup c ''timestamp'' = Some ct" "fmlookup c ''content'' = Some cc"
       "fmlookup c ''scraped_at'' = Some cs" by blast
  from valid_fields [OF assms(4)] obtain pi pa pt pc ps where
    p: "fmlookup p ''id'' = Some (PStr pi)" "fmlookup p ''author'' = Some pa"
       "fmlookup p ''timestamp'' = Some pt" "fmlookup p ''content'' = Some pc"
       "fmlookup p ''scraped_at'' = Some ps" by blast
  show ?thesis
    using assms(1,2) c p
    by (simp add: edited_step_def lookup_def bind_err_def changed_def edited_record_def
        getitem_def)
qed

lemma current_record_in: "current_record es k = Some e \<Longrightarrow> e \<in> set es"
proof -
  assume "current_record es k = Some e"
  then have "e \<in> set (rev es)"
    unfolding current_record_def find_Some_iff by (metis nth_mem)
  then show ?thesis by simp
qed

lemma compute_diff_total:
  assumes "\<forall>e \<in> set cur. validate_entry e" "\<forall>e \<in> snd ` set prev. validate_entry e"
  shows "\<exists>d. compute_diff cur prev = Inr d"
proof -
  from dict_by_id_total [OF assms(1)] obtain cbi where cbi: "dict_by_id cur [] = Inr cbi"
    by blast
  note k = dict_by_id_empty [OF cbi]
  let ?new = "filter (\<lambda>eid. eid \<notin> set (remdups (map fst prev))) (remdups (map fst cbi))"
  let ?del = "filter (\<lambda>eid. eid \<notin> set (remdups (map fst cbi))) (remdups (map fst prev))"
  let ?com = "filter (\<lambda>eid. eid \<in> set (remdups (map fst prev))) (remdups (map fst cbi))"
  have "\<forall>x \<in> set ?new. \<exists>y. lookup cbi x = Inr y"
    by (auto simp: lookup_def map_of_eq_None_iff image_iff split: option.splits)
  from map_err_total [OF this] obtain new where n: "map_err (lookup cbi) ?new = Inr new"
    by blast
  have "\<forall>x \<in> set ?del. \<exists>y. lookup prev x = Inr y"
    by (auto simp: lookup_def map_of_eq_None_iff image_iff split: option.splits)
  from map_err_total [OF this] obtain del where d: "map_err (lookup prev) ?del = Inr del"
    by blast
  have "\<forall>x \<in> set ?com. \<exists>y. edited_step cbi prev x = Inr y"
  proof
    fix x assume "x \<in> set ?com"
    then have xc: "x \<in> fst ` set cbi" and xp: "x \<in> fst ` set prev" by auto
    from xc obtain c where c: "map_of cbi x = Some c"
      by (metis map_of_eq_None_iff not_None_eq)
    from xp obtain p where p: "map_of prev x = Some p"
      by (metis map_of_eq_None_iff not_None_eq)
    from c have "c \<in> set cur" unfolding k(2) by (rule current_record_in)
    with assms(1) have vc: "validate_entry c" by blast
    from p have "p \<in> snd ` set prev" by (metis map_of_SomeD snd_conv image_eqI)
    with assms(2) have vp: "validate_entry p" by blast
    from edited_step_total [OF c p vc vp] show "\<exists>y. edited_step cbi prev x = Inr y" .
  qed
  from map_err_total [OF this] obtain steps where
    s: "map_err (edited_step cbi prev) ?com = Inr steps" by blast
  show ?thesis
    using cbi n d s by (simp add: compute_diff_def bind_err_def Let_def)
qed

lemma compute_diff_scenario:
  assumes "compute_diff cur prev = Inr d"
      and "current_ids cur = {PStr ''1'', PStr ''2'', PStr ''4'', PStr ''5''}"
      and "previous_ids prev = {PStr ''1'', PStr ''2'', PStr ''3''}"
      and "\<not> record_changed cur prev (PStr ''1'')"
      and "field_of (current_record cur (PStr ''2'')) ''content''
             \<noteq> field_of (map_of prev (PStr ''2'')) ''content''"
  shows "Some ` set (new_entries d) =
           {current_record cur (PStr ''4''), current_record cur (PStr ''5'')}
       \<and> length (new_entries d) = 2
       \<and> map ed_id (edited_entries d) = [PStr ''2'']
       \<and> map Some (deleted_entries d) = [map_of prev (PStr ''3'')]
       \<and> new_count (diff_summary d) = 2 \<and> edited_count (diff_summary d) = 1
       \<and> deleted_count (diff_summary d) = 1"
proof -
  note s = compute_diff_sets [OF assms(1)]
  have n45: "current_ids cur - previous_ids prev = {PStr ''4'', PStr ''5''}"
    unfolding assms(2,3) by auto
  have d3: "previous_ids prev - current_ids cur = {PStr ''3''}"
    unfolding assms(2,3) by auto
  have c2: "record_changed cur prev (PStr ''2'')"
    using assms(5) by (simp add: record_changed_def)
  have e2: "{k \<in> current_ids cur \<inter> previous_ids prev. record_changed cur prev k} = {PStr ''2''}"
    unfolding assms(2,3) using assms(4) c2 by auto
  from s(1) obtain ids where i: "distinct ids" "set ids = current_ids cur - previous_ids prev"
      "map Some (new_entries d) = map (current_record cur) ids" by blast
  have "Some ` set (new_entries d) = set (map Some (new_entries d))" by simp
  also have "\<dots> = current_record cur ` set ids" unfolding i(3) by simp
  finally have 1: "Some ` set (new_entries d) =
           {current_record cur (PStr ''4''), current_record cur (PStr ''5'')}"
    unfolding i(2) n45 by simp
  from i(3) have "length (new_entries d) = length ids" by (metis length_map)
  also have "\<dots> = card {PStr ''4'', PStr ''5''}"
    using i(1,2) n45 by (metis distinct_card)
  finally have 2: "length (new_entries d) = 2" by simp
  from s(3,4) e2 have 3: "map ed_id (edited_entries d) = [PStr ''2'']"
    by (intro distinct_singleton) simp_all
  from s(2) obtain ds where j: "distinct ds" "set ds = previous_ids prev - current_ids cur"
      "map Some (deleted_entries d) = map (map_of prev) ds" by blast
  from j(1,2) d3 have "ds = [PStr ''3'']" by (intro distinct_singleton) simp_all
  with j(3) have 4: "map Some (deleted_entries d) = [map_of prev (PStr ''3'')]" by simp
  from 3 have 5: "length (edited_entries d) = 1" by (metis length_map length_Cons list.size(3) One_nat_def)
  from 4 have 6: "length (deleted_entries d) = 1" by (metis length_map length_Cons list.size(3) One_nat_def)
  from s(6) 2 5 6 have 7: "new_count (diff_summary d) = 2 \<and> edited_count (diff_summary d) = 1
       \<and> deleted_count (diff_summary d) = 1" by simp
  from 1 2 3 4 7 show ?thesis by blast
qed

text \<open>
  C1.  Whenever \<^verbatim>\<open>compute_diff\<close> returns: the new records are the current records of the
  ids in \<open>current_ids - previous_ids\<close>, one for each id; the deleted records are the
  previous records of the ids in \<open>previous_ids - current_ids\<close>, one for each id; the
  edited records are one for each id in both sets whose content or timestamp differs, no
  id twice, each carrying the previous and current content and timestamp; and the
  summary counts are the sizes of these three sets, which are disjoint by construction.
  In the scenario (previous ids 1, 2, 3; current ids 1, 2, 4, 5; record 1 unchanged,
  content of record 2 changed) the new records are the current records 4 and 5, the only
  edited id is 2, the only deleted record is the previous record 3, and the counts are
  2, 1, 1.  On validated batches and states \<^verbatim>\<open>compute_diff\<close> always returns.
\<close>

theorem compute_diff_partition:
  "(compute_diff cur prev = Inr d \<longrightarrow>
      (\<exists>ids. distinct ids \<and> set ids = current_ids cur - previous_ids prev
             \<and> map Some (new_entries d) = map (current_record cur) ids)
    \<and> (\<exists>ids. distinct ids \<and> set ids = previous_ids prev - current_ids cur
             \<and> map Some (deleted_entries d) = map (map_of prev) ids)
    \<and> distinct (map ed_id (edited_entries d))
    \<and> ed_id ` set (edited_entries d) =
         {k \<in> current_ids cur \<inter> previous_ids prev. record_changed cur prev k}
    \<and> (\<forall>r \<in> set (edited_entries d). \<exists>c p.
          current_record cur (ed_id r) = Some c \<and> map_of prev (ed_id r) = Some p
          \<and> edited_record (ed_id r) c p = Inr r)
    \<and> diff_summary d =
         \<lparr>new_count = card (current_ids cur - previous_ids prev),
          edited_count = card {k \<in> current_ids cur \<inter> previous_ids prev.
                                 record_changed cur prev k},
          deleted_count = card (previous_ids prev - current_ids cur),
          total_current = length cur, total_previous = length prev\<rparr>
    \<and> (current_ids cur = {PStr ''1'', PStr ''2'', PStr ''4'', PStr ''5''}
       \<and> previous_ids prev = {PStr ''1'', PStr ''2'', PStr ''3''}
       \<and> \<not> record_changed cur prev (PStr ''1'')
       \<and> field_of (current_record cur (PStr ''2'')) ''content''
             \<noteq> field_of (map_of prev (PStr ''2'')) ''content''
       \<longrightarrow> Some ` set (new_entries d) =
             {current_record cur (PStr ''4''), current_record cur (PStr ''5'')}
           \<and> length (new_entries d) = 2
           \<and> map ed_id (edited_entries d) = [PStr ''2'']
           \<and> map Some (deleted_entries d) = [map_of prev (PStr ''3'')]
           \<and> new_count (diff_summary d) = 2 \<and> edited_count (diff_summary d) = 1
           \<and> deleted_count (diff_summary d) = 1))
   \<and> ((\<forall>e \<in> set cur. validate_entry e) \<and> (\<forall>e \<in> snd ` set prev. validate_entry e)
        \<longrightarrow> (\<exists>d'. compute_diff cur prev = Inr d'))"
proof (intro conjI impI)
  assume a: "compute_diff cur prev = Inr d"
  note s = compute_diff_sets [OF a]
  show "\<exists>ids. distinct ids \<and> set ids = current_ids cur - previous_ids prev
             \<and> map Some (new_entries d) = map (current_record cur) ids" by (rule s(1))
  show "\<exists>ids. distinct ids \<and> set ids = previous_ids prev - current_ids cur
             \<and> map Some (deleted_entries d) = map (map_of prev) ids" by (rule s(2))
  show "distinct (map ed_id (edited_entries d))" by (rule s(3))
  show "ed_id ` set (edited_entries d) =
         {k \<in> current_ids cur \<inter> previous_ids prev. record_changed cur prev k}" by (rule s(4))
  show "\<forall>r \<in> set (edited_entries d). \<exists>c p.
          current_record cur (ed_id r) = Some c \<and> map_of prev (ed_id r) = Some p
          \<and> edited_record (ed_id r) c p = Inr r" by (rule s(5))
  show "diff_summary d =
         \<lparr>new_count = card (current_ids cur - previous_ids prev),
          edited_count = card {k \<in> current_ids cur \<inter> previous_ids prev.
                                 record_changed cur prev k},
          deleted_count = card (previous_ids prev - current_ids cur),
          total_current = length cur, total_previous = length prev\<rparr>"
    by (rule compute_diff_counts [OF a])
  assume b: "current_ids cur = {PStr ''1'', PStr ''2'', PStr ''4'', PStr ''5''}
       \<and> previous_ids prev = {PStr ''1'', PStr ''2'', PStr ''3''}
       \<and> \<not> record_changed cur prev (PStr ''1'')
       \<and> field_of (current_record cur (PStr ''2'')) ''content''
             \<noteq> field_of (map_of prev (PStr ''2'')) ''content''"
  have sc: "Some ` set (new_entries d) =
             {current_record cur (PStr ''4''), current_record cur (PStr ''5'')}
           \<and> length (new_entries d) = 2
           \<and> map ed_id (edited_entries d) = [PStr ''2'']
           \<and> map Some (deleted_entries d) = [map_of prev (PStr ''3'')]
           \<and> new_count (diff_summary d) = 2 \<and> edited_count (diff_summary d) = 1
           \<and> deleted_count (diff_summary d) = 1"
    using b by (intro compute_diff_scenario [OF a]) simp_all
  from sc show "Some ` set (new_entries d) =
             {current_record cur (PStr ''4''), current_record cur (PStr ''5'')}" by blast
  from sc show "length (new_entries d) = 2" by blast
  from sc show "map ed_id (edited_entries d) = [PStr ''2'']" by blast
  from sc show "map Some (deleted_entries d) = [map_of prev (PStr ''3'')]" by blast
  from sc show "new_count (diff_summary d) = 2" by blast
  from sc show "edited_count (diff_summary d) = 1" by blast
  from sc show "deleted_count (diff_summary d) = 1" by blast
next
  assume "(\<forall>e \<in> set cur. validate_entry e) \<and> (\<forall>e \<in> snd ` set prev. validate_entry e)"
  then show "\<exists>d'. compute_diff cur prev = Inr d'"
    using compute_diff_total by blast
qed

lemma scen_records:
  "current_record scen_cur (PStr ''1'') = Some (mk_entry ''1'' ''ali'' ''01.01.2024 10:00'' ''first'' ''t1'')"
  "current_record scen_cur (PStr ''2'') =
     Some (mk_entry ''2'' ''veli'' ''01.01.2024 11:00 ~ 12:00'' ''second, edited'' ''t1'')"
  "current_record scen_cur (PStr ''4'') = Some (mk_entry ''4'' ''can'' ''02.01.2024 09:00'' ''fourth'' ''t1'')"
  "current_record scen_cur (PStr ''5'') = Some (mk_entry ''5'' ''cem'' ''02.01.2024 09:30'' ''fifth'' ''t1'')"
  by (simp_all add: current_record_def scen_cur_def mk_entry_fields)

theorem compute_diff_partition_witness:
  "compute_diff scen_cur scen_prev = Inr scen_diff
   \<and> list_all validate_entry scen_cur \<and> list_all validate_entry (map snd scen_prev)
   \<and> Some ` set (new_entries scen_diff) =
       {Some (mk_entry ''4'' ''can'' ''02.01.2024 09:00'' ''fourth'' ''t1''),
        Some (mk_entry ''5'' ''cem'' ''02.01.2024 09:30'' ''fifth'' ''t1'')}
   \<and> map ed_id (edited_entries scen_diff) = [PStr ''2'']
   \<and> map Some (deleted_entries scen_diff) =
       [Some (mk_entry ''3'' ''ece'' ''01.01.2024 12:00'' ''third'' ''t0'')]
   \<and> new_count (diff_summary scen_diff) = 2
   \<and> edited_count (diff_summary scen_diff) = 1
   \<and> deleted_count (diff_summary scen_diff) = 1"
proof -
  note t = compute_diff_partition [of scen_cur scen_prev scen_diff]
  have v: "(\<forall>e \<in> set scen_cur. validate_entry e) \<and> (\<forall>e \<in> snd ` set scen_prev. validate_entry e)"
    by (simp add: scen_cur_def scen_prev_def valid_mk_entry)
  from t v have "\<exists>d'. compute_diff scen_cur scen_prev = Inr d'" by blast
  have e: "compute_diff scen_cur scen_prev = Inr scen_diff" by (rule scen_eval)
  have u: "\<not> record_changed scen_cur scen_prev (PStr ''1'')"
    by (simp add: record_changed_def field_of_def scen_records)
       (simp add: scen_prev_def mk_entry_fields)
  have c: "field_of (current_record scen_cur (PStr ''2'')) ''content''
             \<noteq> field_of (map_of scen_prev (PStr ''2'')) ''content''"
    by (simp add: field_of_def scen_records) (simp add: scen_prev_def mk_entry_fields)
  from t e scen_ids u c
  have "Some ` set (new_entries scen_diff) =
             {current_record scen_cur (PStr ''4''), current_record scen_cur (PStr ''5'')}
           \<and> length (new_entries scen_diff) = 2
           \<and> map ed_id (edited_entries scen_diff) = [PStr ''2'']
           \<and> map Some (deleted_entries scen_diff) = [map_of scen_prev (PStr ''3'')]
           \<and> new_count (diff_summary scen_diff) = 2 \<and> edited_count (diff_summary scen_diff) = 1
           \<and> deleted_count (diff_summary scen_diff) = 1"
    by blast
  moreover have "map_of scen_prev (PStr ''3'') =
      Some (mk_entry ''3'' ''ece'' ''01.01.2024 12:00'' ''third'' ''t0'')"
    by (simp add: scen_prev_def)
  moreover have "list_all validate_entry scen_cur \<and> list_all validate_entry (map snd scen_prev)"
    using v by (simp add: list_all_iff)
  ultimately show ?thesis using e by (simp add: scen_records)
qed

section \<open>The reconciliation run\<close>

lemma run_config:
  "parse_args run_argv =
     Some \<lparr>url = ''https://eksisozluk.com/t--1'', output_file = None,
           state_file = Some ''state.json'', diff_only = False,
           lock_file = Some ''state.json.lock''\<rparr>"
  by (simp add: run_argv_def)

lemma held: "main env_already_running run_argv no_files = (2, no_files)"
  by (simp add: main_def run_config truthy_def env_already_running_def env_ok_def)

lemmas fetch_eval = fetch_html_with_retry_def MAX_RETRIES_def RETRY_BACKOFF_BASE_def Let_def
  upt_conv_Cons

lemma scrape_partial:
  "fst (scrape_all_pages env_partial ''https://eksisozluk.com/t--1'' \<lparr>sent = 0, trace = []\<rparr>) =
     Inr ([rec1], \<lparr>total_pages = 2, successful_pages = 1, failed_pages = 1,
                   partial_scrape = True\<rparr>)"
  by (simp add: scrape_all_pages_def scrape_page_def env_partial_def env_ok_def fetch_eval
      build_page_urls_def)

lemma scrape_ok:
  "fst (scrape_all_pages env_ok ''https://eksisozluk.com/t--1'' \<lparr>sent = 0, trace = []\<rparr>) =
     Inr ([rec1, rec1], \<lparr>total_pages = 2, successful_pages = 2, failed_pages = 0,
                   partial_scrape = False\<rparr>)"
  by (simp add: scrape_all_pages_def scrape_page_def env_ok_def fetch_eval
      build_page_urls_def)

lemma scrape_no_data:
  "fst (scrape_all_pages env_no_data ''https://eksisozluk.com/t--1'' \<lparr>sent = 0, trace = []\<rparr>) =
     Inr ([], \<lparr>total_pages = 0, successful_pages = 0, failed_pages = 0,
               partial_scrape = False\<rparr>)"
  by (simp add: scrape_all_pages_def env_no_data_def env_ok_def fetch_eval)

lemma first_save:
  "\<exists>files'. save_state_atomic no_faults 4242 [rec1] ''state.json'' no_files = (True, files')"
proof -
  have "fst (save_state_atomic no_faults 4242 [rec1] ''state.json'' no_files)"
    by (rule save_succeeds) (simp_all add: validate_entries_def valid_rec1 no_faults_def)
  then show ?thesis
    by (cases "save_state_atomic no_faults 4242 [rec1] ''state.json'' no_files") simp
qed

lemma first_load: "load_state ''state.json'' no_files = ([], [])"
  by (simp add: load_state_def no_files_def)

lemma env_fields:
  "io_faults env_ok = no_faults" "pid env_ok = 4242" "\<not> output_fails env_ok"
  "lock env_ok = Lock_free"
  "io_faults env_partial = no_faults" "pid env_partial = 4242" "\<not> output_fails env_partial"
  "lock env_partial = Lock_free" "lock env_no_data = Lock_free"
  "lock env_already_running = Lock_held"
  by (simp_all add: env_ok_def env_partial_def env_no_data_def env_already_running_def)

text \<open>
  C7.  The exit status of a run with a state file is 0 after a normal success and 1 after
  a hard failure, but it is 2 both after a success with partial data and when another
  process holds the lock: these two outcomes are not told apart by the exit status.
\<close>

theorem exit_codes_collide:
  "fst (main env_ok run_argv no_files) = 0
   \<and> fst (main env_partial run_argv no_files) = 2
   \<and> fst (main env_already_running run_argv no_files) = 2
   \<and> fst (main env_no_data run_argv no_files) = 1"
proof (intro conjI)
  from first_save obtain files' where
    sv: "save_state_atomic no_faults 4242 [rec1] ''state.json'' no_files = (True, files')"
    by blast
  show "fst (main env_ok run_argv no_files) = 0"
    using sv
    by (simp add: main_def run_config truthy_def run_locked_def scrape_ok env_fields
        validate_entries_def valid_rec1 first_load write_output_def)
  show "fst (main env_partial run_argv no_files) = 2"
    using sv
    by (simp add: main_def run_config truthy_def run_locked_def scrape_partial env_fields
        validate_entries_def valid_rec1 first_load write_output_def)
  show "fst (main env_already_running run_argv no_files) = 2"
    by (simp add: main_def run_config truthy_def env_fields)
  show "fst (main env_no_data run_argv no_files) = 1"
    by (simp add: main_def run_config truthy_def run_locked_def scrape_no_data env_fields)
qed

end
